theory Spec2Isabelle
  imports Main "HOL-Library.Word"
begin

unbundle bit_operations_syntax

section \<open>Memory, bytes and C strings\<close>

text \<open>
  The archive is read in place through \<^verbatim>\<open>const uint8_t*\<close> pointers. A pointer is an
  address (an integer) and the address space is a function from addresses to bytes.
  A C string (\<^verbatim>\<open>const char*\<close>) is the list of its bytes before the terminating NUL, so a
  list that holds a NUL byte is the C string of no pointer.
\<close>

type_synonym u8 = "8 word"
type_synonym u16 = "16 word"
type_synonym u32 = "32 word"
type_synonym addr = int
type_synonym memory = "addr \<Rightarrow> u8"
type_synonym cstring = "u8 list"

definition mem_read :: "memory \<Rightarrow> addr \<Rightarrow> nat \<Rightarrow> u8 list" where
  "mem_read m a n = map (\<lambda>i. m (a + int i)) [0..<n]"

text \<open>
  The process may read the addresses that are mapped, and a read of any other address is
  a fault that ends it. The central directory is read where \<^verbatim>\<open>open\<close> walks it, in the
  region that the System has mapped and in the bytes next to it, and these reads are
  taken to succeed. A local header is reached through an offset that the archive
  records, which may lead anywhere: the reads of a local header and of the data after it
  are checked. \<^verbatim>\<open>readable mapped a n\<close>: the \<^verbatim>\<open>n\<close> bytes at \<^verbatim>\<open>a\<close> can be read. \<^verbatim>\<open>view mapped m a n\<close>:
  these bytes as a reader meets them, \<^verbatim>\<open>None\<close> where the address is not mapped.
\<close>

definition readable :: "(addr \<Rightarrow> bool) \<Rightarrow> addr \<Rightarrow> nat \<Rightarrow> bool" where
  "readable mapped a n = list_all (\<lambda>i. mapped (a + int i)) [0..<n]"

definition view :: "(addr \<Rightarrow> bool) \<Rightarrow> memory \<Rightarrow> addr \<Rightarrow> nat \<Rightarrow> u8 option list" where
  "view mapped m a n =
     map (\<lambda>i. if mapped (a + int i) then Some (m (a + int i)) else None) [0..<n]"

text \<open>\<^verbatim>\<open>equal(a, al, b, bl)\<close>: the lengths agree and \<^verbatim>\<open>memcmp\<close> over \<^verbatim>\<open>al\<close> bytes gives 0.
  Here \<^verbatim>\<open>a\<close> is the requested name and \<^verbatim>\<open>b\<close> points into the archive.\<close>

definition equal_bytes :: "memory \<Rightarrow> cstring \<Rightarrow> nat \<Rightarrow> addr \<Rightarrow> nat \<Rightarrow> bool" where
  "equal_bytes m a al b bl = (if al = bl then take al a = mem_read m b al else False)"

section \<open>JarIndex: the fields of a central header\<close>

definition LocalHeaderSize :: nat where "LocalHeaderSize = 30"
definition HeaderSize :: nat where "HeaderSize = 46"

definition Stored :: u16 where "Stored = 0"
definition Deflated :: u16 where "Deflated = 8"

definition get2 :: "memory \<Rightarrow> addr \<Rightarrow> u16" where
  "get2 m p = (push_bit 8 (ucast (m (p + 1)) :: u16)) OR (ucast (m p) :: u16)"

definition get4 :: "memory \<Rightarrow> addr \<Rightarrow> u32" where
  "get4 m p =
     (push_bit 24 (ucast (m (p + 3)) :: u32)) OR
     (push_bit 16 (ucast (m (p + 2)) :: u32)) OR
     (push_bit 8 (ucast (m (p + 1)) :: u32)) OR
     (ucast (m p) :: u32)"

definition signature :: "memory \<Rightarrow> addr \<Rightarrow> u32" where
  "signature m p = get4 m p"

definition compressionMethod :: "memory \<Rightarrow> addr \<Rightarrow> u16" where
  "compressionMethod m centralHeader = get2 m (centralHeader + 10)"

definition compressedSize :: "memory \<Rightarrow> addr \<Rightarrow> u32" where
  "compressedSize m centralHeader = get4 m (centralHeader + 20)"

definition uncompressedSize :: "memory \<Rightarrow> addr \<Rightarrow> u32" where
  "uncompressedSize m centralHeader = get4 m (centralHeader + 24)"

definition fileNameLength :: "memory \<Rightarrow> addr \<Rightarrow> u16" where
  "fileNameLength m centralHeader = get2 m (centralHeader + 28)"

definition extraFieldLength :: "memory \<Rightarrow> addr \<Rightarrow> u16" where
  "extraFieldLength m centralHeader = get2 m (centralHeader + 30)"

definition commentFieldLength :: "memory \<Rightarrow> addr \<Rightarrow> u16" where
  "commentFieldLength m centralHeader = get2 m (centralHeader + 32)"

definition localHeaderOffset :: "memory \<Rightarrow> addr \<Rightarrow> u32" where
  "localHeaderOffset m centralHeader = get4 m (centralHeader + 42)"

definition localFileNameLength :: "memory \<Rightarrow> addr \<Rightarrow> u16" where
  "localFileNameLength m localHeader = get2 m (localHeader + 26)"

definition localExtraFieldLength :: "memory \<Rightarrow> addr \<Rightarrow> u16" where
  "localExtraFieldLength m localHeader = get2 m (localHeader + 28)"

definition centralDirectoryOffset :: "memory \<Rightarrow> addr \<Rightarrow> u32" where
  "centralDirectoryOffset m centralHeader = get4 m (centralHeader + 16)"

definition fileName :: "addr \<Rightarrow> addr" where
  "fileName centralHeader = centralHeader + 46"

text \<open>Pointer arithmetic: the 16-bit lengths are promoted and added to the pointer, so
  nothing wraps.\<close>

definition fileData :: "memory \<Rightarrow> addr \<Rightarrow> addr" where
  "fileData m localHeader =
     localHeader + int LocalHeaderSize + uint (localFileNameLength m localHeader) +
       uint (localExtraFieldLength m localHeader)"

definition endOfEntry :: "memory \<Rightarrow> addr \<Rightarrow> addr" where
  "endOfEntry m p =
     p + int HeaderSize + uint (fileNameLength m p) + uint (extraFieldLength m p) +
       uint (commentFieldLength m p)"

text \<open>The name of an entry, as the bytes the central header holds (no copy is kept).\<close>

definition entryName :: "memory \<Rightarrow> addr \<Rightarrow> u8 list" where
  "entryName m p = mem_read m (fileName p) (unat (fileNameLength m p))"

section \<open>JarIndex: the hash table\<close>

text \<open>
  A \<^verbatim>\<open>Node\<close> holds the hash and the pointer to the central header; its \<^verbatim>\<open>next\<close> pointer
  is the rest of the chain it heads, so a bucket chain is the list of its nodes, head
  first. \<^verbatim>\<open>nodes\<close> is the constructed prefix of the node array (slots
  \<^verbatim>\<open>0 .. position - 1\<close>), \<^verbatim>\<open>table\<close> the \<^verbatim>\<open>capacity\<close> chains. \<^verbatim>\<open>unsigned\<close> is 32 bits wide.
\<close>

record node =
  hash :: u32
  entry :: addr

record jar_index =
  capacity :: u32
  position :: u32
  nodes :: "node list"
  table :: "node list list"

definition JarIndex_make :: "u32 \<Rightarrow> jar_index" where
  "JarIndex_make c = \<lparr>capacity = c, position = 0, nodes = [], table = replicate (unat c) []\<rparr>"

text \<open>The branch \<^verbatim>\<open>position < capacity\<close> of \<^verbatim>\<open>add\<close>: the new node is constructed in slot
  \<^verbatim>\<open>position\<close> and becomes the head of chain \<^verbatim>\<open>hash & (capacity - 1)\<close>.\<close>

definition link :: "jar_index \<Rightarrow> u32 \<Rightarrow> addr \<Rightarrow> jar_index" where
  "link ix h e =
     (let i = unat (h AND (capacity ix - 1));
          n = \<lparr>hash = h, entry = e\<rparr>
      in ix\<lparr>position := position ix + 1,
            nodes := nodes ix @ [n],
            table := (table ix)[i := n # table ix ! i]\<rparr>)"

text \<open>
  The calls of \<^verbatim>\<open>add\<close> that the growing branch makes on the fresh index. The fresh index
  has twice the capacity, so each of them takes the branch \<^verbatim>\<open>position < capacity\<close> and
  returns \<^verbatim>\<open>this\<close>. Were one of them to grow in turn (\<^verbatim>\<open>capacity * 2\<close> wrapped around), the
  loop would drop the index it returns and go on with the disposed one, and on an index
  of capacity 0 the calls of \<^verbatim>\<open>add\<close> have no end: no result.
\<close>

definition add_inner :: "jar_index \<Rightarrow> u32 \<Rightarrow> addr \<Rightarrow> jar_index option" where
  "add_inner ix h e = (if position ix < capacity ix then Some (link ix h e) else None)"

fun add_each :: "jar_index \<Rightarrow> node list \<Rightarrow> jar_index option" where
  "add_each index [] = Some index"
| "add_each index (n # ns) =
     (case add_inner index (hash n) (entry n) of
        None \<Rightarrow> None
      | Some index' \<Rightarrow> add_each index' ns)"

definition add :: "jar_index \<Rightarrow> u32 \<Rightarrow> addr \<Rightarrow> jar_index option" where
  "add ix h e =
     (if position ix < capacity ix then Some (link ix h e)
      else (case add_each (JarIndex_make (capacity ix * 2)) (take (unat (capacity ix)) (nodes ix)) of
              None \<Rightarrow> None
            | Some index \<Rightarrow> add_inner index h e))"

text \<open>\<^verbatim>\<open>findNode\<close>: the chain of bucket \<^verbatim>\<open>hash(name) & (capacity - 1)\<close> is scanned from its
  head for a node whose stored name equals \<^verbatim>\<open>name\<close>. The two overloads of \<^verbatim>\<open>hash\<close> (of a
  C string, and of a pointer with a length) are declared outside this file: they are the
  parameters \<^verbatim>\<open>hashN\<close> and \<^verbatim>\<open>hashB\<close>.\<close>

definition matches :: "memory \<Rightarrow> cstring \<Rightarrow> node \<Rightarrow> bool" where
  "matches m name n =
     equal_bytes m name (length name) (fileName (entry n)) (unat (fileNameLength m (entry n)))"

definition findNode :: "(cstring \<Rightarrow> u32) \<Rightarrow> memory \<Rightarrow> jar_index \<Rightarrow> cstring \<Rightarrow> node option" where
  "findNode hashN m ix name =
     (let i = unat (hashN name AND (capacity ix - 1))
      in List.find (matches m name) (table ix ! i))"

definition JarIndex_exists :: "(cstring \<Rightarrow> u32) \<Rightarrow> memory \<Rightarrow> jar_index \<Rightarrow> cstring \<Rightarrow> bool" where
  "JarIndex_exists hashN m ix name = (findNode hashN m ix name \<noteq> None)"

section \<open>JarIndex: building the index from an archive\<close>

text \<open>What \<^verbatim>\<open>start()\<close> and \<^verbatim>\<open>length()\<close> of a \<^verbatim>\<open>System::Region\<close> return: the bytes of an
  archive, wherever they come from.\<close>

record span =
  span_start :: addr
  span_length :: nat

text \<open>
  The inner loop of \<^verbatim>\<open>open\<close>, walking the central directory from \<^verbatim>\<open>p\<close>. It ends in one of
  two ways: \<^verbatim>\<open>return index\<close> at a record with another signature (\<^verbatim>\<open>Returned\<close>), or the loop
  condition \<^verbatim>\<open>p < end\<close> fails and control is back in the outer loop (\<^verbatim>\<open>Passed\<close>, with the
  pointer reached). \<^verbatim>\<open>None\<close>: \<^verbatim>\<open>add\<close> gave no result.
\<close>

datatype walked = Returned jar_index | Passed addr jar_index

function walk :: "(u8 list \<Rightarrow> u32) \<Rightarrow> memory \<Rightarrow> addr \<Rightarrow> jar_index \<Rightarrow> addr \<Rightarrow> walked option" where
  "walk hashB m endp index p =
     (if p < endp then
        (if signature m p = 0x02014b50 then
           (case add index (hashB (mem_read m (fileName p) (unat (fileNameLength m p)))) p of
              None \<Rightarrow> None
            | Some index' \<Rightarrow> walk hashB m endp index' (endOfEntry m p))
         else Some (Returned index))
      else Some (Passed p index))"
  by pat_completeness auto
termination
proof (relation "measure (\<lambda>(hashB, m, endp, index, p). nat (endp - p))")
  show "wf (measure (\<lambda>(hashB, m, endp, index, p). nat (endp - p)))"
    by simp
next
  fix hashB :: "u8 list \<Rightarrow> u32" and m :: memory and endp p :: addr
    and index index' :: jar_index
  assume "p < endp"
  moreover have "p + 46 \<le> endOfEntry m p"
    by (simp add: endOfEntry_def HeaderSize_def)
  ultimately show "((hashB, m, endp, index', endOfEntry m p), (hashB, m, endp, index, p))
      \<in> measure (\<lambda>(hashB, m, endp, index, p). nat (endp - p))"
    by simp
qed

declare walk.simps [simp del]

text \<open>
  The outer loop of \<^verbatim>\<open>open\<close>, scanning backwards from \<^verbatim>\<open>p\<close> for the end of central directory
  record while \<^verbatim>\<open>p > start\<close>. After a walk that passed \<^verbatim>\<open>end\<close> the scan goes on from the
  pointer the walk reached, so the loop need not end: \<^verbatim>\<open>None\<close> is no result.
\<close>

partial_function (option) scan ::
  "(u8 list \<Rightarrow> u32) \<Rightarrow> memory \<Rightarrow> addr \<Rightarrow> addr \<Rightarrow> jar_index \<Rightarrow> addr \<Rightarrow> jar_index option" where
  "scan hashB m start endp index p =
     (if p > start then
        (if signature m p = 0x06054b50 then
           (case walk hashB m endp index (start + uint (centralDirectoryOffset m p)) of
              None \<Rightarrow> None
            | Some (Returned index') \<Rightarrow> Some index'
            | Some (Passed p' index') \<Rightarrow> scan hashB m start endp index' p')
         else scan hashB m start endp index (p - 1))
      else Some index)"

definition JarIndex_open :: "(u8 list \<Rightarrow> u32) \<Rightarrow> memory \<Rightarrow> span \<Rightarrow> jar_index option" where
  "JarIndex_open hashB m region =
     (let index = JarIndex_make 32;
          start = span_start region;
          endp = start + int (span_length region);
          p = endp - 22
      in scan hashB m start endp index p)"

section \<open>JarIndex: finding an entry\<close>

text \<open>
  The regions \<^verbatim>\<open>find\<close> returns: the System's own (a mapped file), a \<^verbatim>\<open>PointerRegion\<close>
  (\<^verbatim>\<open>start_\<close> and \<^verbatim>\<open>length_\<close>: a view of memory it does not own) or a \<^verbatim>\<open>DataRegion\<close>
  (\<^verbatim>\<open>length_\<close> and its own buffer \<^verbatim>\<open>data\<close>, of which the list is what was written).
\<close>

datatype region =
    SystemRegion span
  | PointerRegion addr nat
  | DataRegion nat "u8 list"

text \<open>
  zlib is outside the repository: \<^verbatim>\<open>inflateInit2\<close> (from the window bits to its return code)
  and \<^verbatim>\<open>inflate\<close> are parameters. \<^verbatim>\<open>inflate\<close> is given the \<^verbatim>\<open>avail_in\<close> bytes at \<^verbatim>\<open>next_in\<close> as it
  can read them, \<^verbatim>\<open>avail_out\<close> and the flush mode, and gives its return code, the bytes
  written and the counts left in the stream; how much of the input it reads is its own
  affair, and it gives \<^verbatim>\<open>None\<close> when it reads an address that is not mapped.
\<close>

record inflated =
  ret :: int
  written :: "u8 list"
  avail_in :: nat
  avail_out :: nat

record codec =
  inflateInit2 :: "int \<Rightarrow> int"
  inflate :: "u8 option list \<Rightarrow> nat \<Rightarrow> int \<Rightarrow> inflated option"

definition Z_OK :: int where "Z_OK = 0"
definition Z_STREAM_END :: int where "Z_STREAM_END = 1"
definition Z_FINISH :: int where "Z_FINISH = 4"

text \<open>\<^verbatim>\<open>abort(s)\<close> ends the process, and so does \<^verbatim>\<open>expect(s, v)\<close> when \<^verbatim>\<open>v\<close> is false.
  A null pointer that the code dereferences is an error of its own, and so is the read
  of an address that is not mapped.\<close>

datatype error = Abort | NullDereference | Fault

text \<open>
  \<^verbatim>\<open>find\<close>. In both branches \<^verbatim>\<open>fileData(start + localHeaderOffset(p))\<close> reads the two 16-bit
  lengths of the local header, at its offsets 26 and 28.
\<close>

definition JarIndex_find ::
  "codec \<Rightarrow> (cstring \<Rightarrow> u32) \<Rightarrow> (addr \<Rightarrow> bool) \<Rightarrow> memory \<Rightarrow> jar_index \<Rightarrow> cstring \<Rightarrow> addr \<Rightarrow>
     error + region option" where
  "JarIndex_find z hashN mapped m ix name start =
     (case findNode hashN m ix name of
        None \<Rightarrow> Inr None
      | Some n \<Rightarrow>
          (let p = entry n in
           if compressionMethod m p = Stored then
             (let localHeader = start + uint (localHeaderOffset m p)
              in if \<not> readable mapped (localHeader + 26) 4 then Inl Fault
                 else Inr (Some (PointerRegion (fileData m localHeader)
                                   (unat (compressedSize m p)))))
           else if compressionMethod m p = Deflated then
             (let len = unat (uncompressedSize m p);
                  localHeader = start + uint (localHeaderOffset m p)
              in if \<not> readable mapped (localHeader + 26) 4 then Inl Fault
                 else
                   (let next_in = fileData m localHeader;
                        avail_in = unat (compressedSize m p)
                    in if inflateInit2 z (- 15) \<noteq> Z_OK then Inl Abort
                       else (case inflate z (view mapped m next_in avail_in) len Z_FINISH of
                               None \<Rightarrow> Inl Fault
                             | Some r \<Rightarrow>
                                 if ret r \<noteq> Z_STREAM_END then Inl Abort
                                 else Inr (Some (DataRegion len (written r))))))
           else Inl Abort))"

section \<open>The collaborators declared outside this file\<close>

text \<open>
  \<^verbatim>\<open>System\<close> (system.h) gives the file type of a path (\<^verbatim>\<open>identify\<close>), maps a file
  (\<^verbatim>\<open>map\<close>: the region when the status is a success), opens a directory (\<^verbatim>\<open>open\<close>: when the
  status is a success, the names that the successive calls of \<^verbatim>\<open>next()\<close> on the handle
  return) and loads a library (\<^verbatim>\<open>load\<close>). A library resolves a symbol to a function or to
  null; the function returns the pointer and the size of the embedded archive, or null.
  With them come the address space and the addresses that are mapped, the two overloads
  of \<^verbatim>\<open>hash\<close> and zlib.
\<close>

datatype file_type = TypeDoesNotExist | TypeFile | TypeDirectory

type_synonym library = "cstring \<Rightarrow> span option option"

record env =
  env_memory :: memory
  env_mapped :: "addr \<Rightarrow> bool"
  env_identify :: "cstring \<Rightarrow> file_type"
  env_map :: "cstring \<Rightarrow> span option"
  env_open :: "cstring \<Rightarrow> cstring list option"
  env_load :: "cstring option \<Rightarrow> library option"
  env_hashN :: "cstring \<Rightarrow> u32"
  env_hashB :: "u8 list \<Rightarrow> u32"
  env_zlib :: codec

definition slash :: u8 where "slash = 0x2F"
definition dot :: u8 where "dot = 0x2E"

text \<open>\<^verbatim>\<open>append(s, a, "/", c)\<close>\<close>

definition append_path :: "cstring \<Rightarrow> cstring \<Rightarrow> cstring" where
  "append_path a c = a @ [slash] @ c"

section \<open>Elements\<close>

text \<open>
  An element of the path, with the fields its class has: the name, and for the two
  archive-backed classes the region and the index, null until \<^verbatim>\<open>init\<close> has set them
  (the library handle of a \<^verbatim>\<open>BuiltinElement\<close>, which only \<^verbatim>\<open>dispose\<close> reads, is left out).
  A call that does not return, aborts, dereferences null or reads an address that is not
  mapped gives \<^verbatim>\<open>Inl\<close>.
\<close>

datatype failure = Failed error | NoReturn

datatype element =
    DirectoryElement cstring
  | JarElement cstring "span option" "jar_index option"
  | BuiltinElement cstring "cstring option" "span option" "jar_index option"

fun element_region :: "element \<Rightarrow> span option" where
  "element_region (DirectoryElement name) = None"
| "element_region (JarElement name region index) = region"
| "element_region (BuiltinElement name libraryName region index) = region"

fun element_index :: "element \<Rightarrow> jar_index option" where
  "element_index (DirectoryElement name) = None"
| "element_index (JarElement name region index) = index"
| "element_index (BuiltinElement name libraryName region index) = index"

text \<open>\<^verbatim>\<open>JarElement::init\<close> and \<^verbatim>\<open>BuiltinElement::init\<close>: nothing happens once the index is
  there. (A \<^verbatim>\<open>DirectoryElement\<close> has no \<^verbatim>\<open>init\<close>.)\<close>

fun init :: "env \<Rightarrow> element \<Rightarrow> failure + element" where
  "init s (DirectoryElement name) = Inr (DirectoryElement name)"
| "init s (JarElement name region index) =
     (if index = None then
        (case env_map s name of
           Some r \<Rightarrow>
             (case JarIndex_open (env_hashB s) (env_memory s) r of
                None \<Rightarrow> Inl NoReturn
              | Some ix \<Rightarrow> Inr (JarElement name (Some r) (Some ix)))
         | None \<Rightarrow> Inr (JarElement name region index))
      else Inr (JarElement name region index))"
| "init s (BuiltinElement name libraryName region index) =
     (if index = None then
        (case env_load s libraryName of
           Some library \<Rightarrow>
             (case library name of
                Some function \<Rightarrow>
                  (case function of
                     Some data \<Rightarrow>
                       (case JarIndex_open (env_hashB s) (env_memory s) data of
                          None \<Rightarrow> Inl NoReturn
                        | Some ix \<Rightarrow> Inr (BuiltinElement name libraryName (Some data) (Some ix)))
                   | None \<Rightarrow> Inr (BuiltinElement name libraryName region index))
              | None \<Rightarrow> Inr (BuiltinElement name libraryName region index))
         | None \<Rightarrow> Inr (BuiltinElement name libraryName region index))
      else Inr (BuiltinElement name libraryName region index))"

text \<open>\<^verbatim>\<open>while (*name == '/') name++;\<close>\<close>

definition strip_slashes :: "cstring \<Rightarrow> cstring" where
  "strip_slashes name = dropWhile (\<lambda>c. c = slash) name"

text \<open>\<^verbatim>\<open>JarElement::find\<close> (inherited by \<^verbatim>\<open>BuiltinElement\<close>), after \<^verbatim>\<open>init()\<close>:
  \<^verbatim>\<open>index ? index->find(name, region->start()) : 0\<close>.\<close>

definition JarElement_find :: "env \<Rightarrow> element \<Rightarrow> cstring \<Rightarrow> failure + region option" where
  "JarElement_find s e name =
     (case element_index e of
        None \<Rightarrow> Inr None
      | Some index \<Rightarrow>
          (case element_region e of
             None \<Rightarrow> Inl (Failed NullDereference)
           | Some region \<Rightarrow>
               (case JarIndex_find (env_zlib s) (env_hashN s) (env_mapped s) (env_memory s)
                       index name (span_start region) of
                  Inl err \<Rightarrow> Inl (Failed err)
                | Inr r \<Rightarrow> Inr r)))"

definition JarElement_exists :: "env \<Rightarrow> element \<Rightarrow> cstring \<Rightarrow> bool" where
  "JarElement_exists s e name =
     (case element_index e of
        None \<Rightarrow> False
      | Some index \<Rightarrow> JarIndex_exists (env_hashN s) (env_memory s) index name)"

text \<open>The virtual \<^verbatim>\<open>find\<close> and \<^verbatim>\<open>exists\<close> of an element: the result, and the element as
  the call leaves it.\<close>

fun Element_find :: "env \<Rightarrow> element \<Rightarrow> cstring \<Rightarrow> failure + (region option \<times> element)" where
  "Element_find s (DirectoryElement name') name =
     (case env_map s (append_path name' name) of
        Some region \<Rightarrow> Inr (Some (SystemRegion region), DirectoryElement name')
      | None \<Rightarrow> Inr (None, DirectoryElement name'))"
| "Element_find s e name =
     (case init s e of
        Inl f \<Rightarrow> Inl f
      | Inr e' \<Rightarrow>
          (case JarElement_find s e' (strip_slashes name) of
             Inl f \<Rightarrow> Inl f
           | Inr r \<Rightarrow> Inr (r, e')))"

fun Element_exists :: "env \<Rightarrow> element \<Rightarrow> cstring \<Rightarrow> failure + (bool \<times> element)" where
  "Element_exists s (DirectoryElement name') name =
     Inr (env_identify s (append_path name' name) \<noteq> TypeDoesNotExist, DirectoryElement name')"
| "Element_exists s e name =
     (case init s e of
        Inl f \<Rightarrow> Inl f
      | Inr e' \<Rightarrow> Inr (JarElement_exists s e' (strip_slashes name), e'))"

section \<open>The finder\<close>

text \<open>\<^verbatim>\<open>MyFinder::find\<close> and \<^verbatim>\<open>MyFinder::exists\<close> over the linked list \<^verbatim>\<open>path_\<close>: the
  result, and the elements as the call leaves them.\<close>

fun MyFinder_find :: "env \<Rightarrow> element list \<Rightarrow> cstring \<Rightarrow> failure + (region option \<times> element list)" where
  "MyFinder_find s [] name = Inr (None, [])"
| "MyFinder_find s (e # es) name =
     (case Element_find s e name of
        Inl f \<Rightarrow> Inl f
      | Inr (Some r, e') \<Rightarrow> Inr (Some r, e' # es)
      | Inr (None, e') \<Rightarrow>
          (case MyFinder_find s es name of
             Inl f \<Rightarrow> Inl f
           | Inr (r, es') \<Rightarrow> Inr (r, e' # es')))"

fun MyFinder_exists :: "env \<Rightarrow> element list \<Rightarrow> cstring \<Rightarrow> failure + (bool \<times> element list)" where
  "MyFinder_exists s [] name = Inr (False, [])"
| "MyFinder_exists s (e # es) name =
     (case Element_exists s e name of
        Inl f \<Rightarrow> Inl f
      | Inr (True, e') \<Rightarrow> Inr (True, e' # es)
      | Inr (False, e') \<Rightarrow>
          (case MyFinder_exists s es name of
             Inl f \<Rightarrow> Inl f
           | Inr (b, es') \<Rightarrow> Inr (b, e' # es')))"

section \<open>Iterators\<close>

text \<open>
  \<^verbatim>\<open>DirectoryElement::Iterator\<close>, with its fields \<^verbatim>\<open>name\<close>, \<^verbatim>\<open>skip\<close>, \<^verbatim>\<open>directory\<close> (null when
  the directory could not be opened, else the names its handle has yet to return),
  \<^verbatim>\<open>last\<close> and \<^verbatim>\<open>it\<close> (the iterator of the subdirectory being listed, or null).
\<close>

datatype dir_iterator =
  DirIterator cstring nat "cstring list option" "cstring option" "dir_iterator option"

text \<open>The constructor opens the directory.\<close>

definition new_DirIterator :: "env \<Rightarrow> cstring \<Rightarrow> nat \<Rightarrow> dir_iterator" where
  "new_DirIterator s name skip = DirIterator name skip (env_open s name) None None"

text \<open>\<^verbatim>\<open>dispose\<close> calls \<^verbatim>\<open>directory->dispose()\<close> without a test for null.\<close>

fun DirIterator_dispose :: "dir_iterator \<Rightarrow> failure + unit" where
  "DirIterator_dispose (DirIterator name skip directory last0 it) =
     (case directory of None \<Rightarrow> Inl (Failed NullDereference) | Some vs \<Rightarrow> Inr ())"

text \<open>\<^verbatim>\<open>v[0] == '.'\<close> (for the empty name \<^verbatim>\<open>v[0]\<close> is the NUL)\<close>

fun dotted :: "cstring \<Rightarrow> bool" where
  "dotted [] = False"
| "dotted (c # cs) = (c = dot)"

text \<open>The part of \<^verbatim>\<open>next\<close> after the nested iterator is done with: the loop over the
  names of the directory.\<close>

fun DirIterator_own ::
  "env \<Rightarrow> cstring \<Rightarrow> nat \<Rightarrow> cstring list option \<Rightarrow> cstring option \<Rightarrow>
     cstring option \<times> dir_iterator" where
  "DirIterator_own s name skip None last0 = (None, DirIterator name skip None last0 None)"
| "DirIterator_own s name skip (Some []) last0 = (None, DirIterator name skip (Some []) last0 None)"
| "DirIterator_own s name skip (Some (v # vs)) last0 =
     (if \<not> dotted v then
        (let last1 = append_path name v;
             it = (if env_identify s last1 = TypeDirectory
                   then Some (new_DirIterator s last1 skip) else None)
         in (Some (drop skip last1), DirIterator name skip (Some vs) (Some last1) it))
      else DirIterator_own s name skip (Some vs) last0)"

fun DirIterator_next :: "env \<Rightarrow> dir_iterator \<Rightarrow> failure + (cstring option \<times> dir_iterator)" where
  "DirIterator_next s (DirIterator name skip directory last0 None) =
     Inr (DirIterator_own s name skip directory last0)"
| "DirIterator_next s (DirIterator name skip directory last0 (Some it)) =
     (case DirIterator_next s it of
        Inl f \<Rightarrow> Inl f
      | Inr (Some v, it') \<Rightarrow> Inr (Some v, DirIterator name skip directory last0 (Some it'))
      | Inr (None, it') \<Rightarrow>
          (case DirIterator_dispose it' of
             Inl f \<Rightarrow> Inl f
           | Inr u \<Rightarrow> Inr (DirIterator_own s name skip directory last0)))"

text \<open>\<^verbatim>\<open>JarElement::Iterator\<close>, with its fields \<^verbatim>\<open>index\<close> and \<^verbatim>\<open>position\<close>. It yields the
  pointer to the name in the central header and the length of the name.\<close>

datatype jar_iterator = JarIterator "jar_index option" u32

fun JarIterator_next :: "env \<Rightarrow> jar_iterator \<Rightarrow> failure + (cstring option \<times> jar_iterator)" where
  "JarIterator_next s (JarIterator None pos) = Inl (Failed NullDereference)"
| "JarIterator_next s (JarIterator (Some index) pos) =
     (if pos < position index then
        (let n = nodes index ! unat pos
         in Inr (Some (mem_read (env_memory s) (fileName (entry n))
                         (unat (fileNameLength (env_memory s) (entry n)))),
                 JarIterator (Some index) (pos + 1)))
      else Inr (None, JarIterator (Some index) pos))"

text \<open>\<^verbatim>\<open>Element::Iterator\<close> and the virtual \<^verbatim>\<open>iterator()\<close>, \<^verbatim>\<open>next\<close> and \<^verbatim>\<open>dispose\<close>.\<close>

datatype iterator = OfDirectory dir_iterator | OfJar jar_iterator

fun Element_iterator :: "env \<Rightarrow> element \<Rightarrow> failure + (iterator \<times> element)" where
  "Element_iterator s (DirectoryElement name) =
     Inr (OfDirectory (new_DirIterator s name (length name + 1)), DirectoryElement name)"
| "Element_iterator s e =
     (case init s e of
        Inl f \<Rightarrow> Inl f
      | Inr e' \<Rightarrow> Inr (OfJar (JarIterator (element_index e') 0), e'))"

fun Iterator_next :: "env \<Rightarrow> iterator \<Rightarrow> failure + (cstring option \<times> iterator)" where
  "Iterator_next s (OfDirectory it) =
     (case DirIterator_next s it of
        Inl f \<Rightarrow> Inl f
      | Inr (v, it') \<Rightarrow> Inr (v, OfDirectory it'))"
| "Iterator_next s (OfJar it) =
     (case JarIterator_next s it of
        Inl f \<Rightarrow> Inl f
      | Inr (v, it') \<Rightarrow> Inr (v, OfJar it'))"

fun Iterator_dispose :: "iterator \<Rightarrow> failure + unit" where
  "Iterator_dispose (OfDirectory it) = DirIterator_dispose it"
| "Iterator_dispose (OfJar it) = Inr ()"

text \<open>
  \<^verbatim>\<open>MyIterator\<close>, with its fields \<^verbatim>\<open>e\<close> (the elements after the one being listed) and \<^verbatim>\<open>it\<close>.
  An element that \<^verbatim>\<open>iterator()\<close> initialises keeps its index in the path of the finder;
  the iterator does not come back to it.
\<close>

datatype my_iterator = MyIterator "element list" "iterator option"

fun MyFinder_iterator :: "env \<Rightarrow> element list \<Rightarrow> failure + my_iterator" where
  "MyFinder_iterator s [] = Inr (MyIterator [] None)"
| "MyFinder_iterator s (path # rest) =
     (case Element_iterator s path of
        Inl f \<Rightarrow> Inl f
      | Inr (it, path') \<Rightarrow> Inr (MyIterator rest (Some it)))"

function MyIterator_next :: "env \<Rightarrow> my_iterator \<Rightarrow> failure + (cstring option \<times> my_iterator)" where
  "MyIterator_next s (MyIterator e None) = Inr (None, MyIterator e None)"
| "MyIterator_next s (MyIterator e (Some it)) =
     (case Iterator_next s it of
        Inl f \<Rightarrow> Inl f
      | Inr (Some v, it') \<Rightarrow> Inr (Some v, MyIterator e (Some it'))
      | Inr (None, it') \<Rightarrow>
          (case Iterator_dispose it' of
             Inl f \<Rightarrow> Inl f
           | Inr u \<Rightarrow>
               (case e of
                  [] \<Rightarrow> MyIterator_next s (MyIterator [] None)
                | x # xs \<Rightarrow>
                    (case Element_iterator s x of
                       Inl f \<Rightarrow> Inl f
                     | Inr (it2, x') \<Rightarrow> MyIterator_next s (MyIterator xs (Some it2))))))"
  by pat_completeness auto
termination
  by (relation "measure (\<lambda>(s, i). case i of MyIterator e it \<Rightarrow>
        2 * length e + (if it = None then 0 else 1))") auto

declare MyIterator_next.simps [simp del]

text \<open>
  The names an iterator yields: \<^verbatim>\<open>next\<close> is called until it returns null. \<^verbatim>\<open>yields nxt i vs i'\<close>
  when these calls return the names \<^verbatim>\<open>vs\<close>, then null, and leave the iterator as \<^verbatim>\<open>i'\<close>.
\<close>

inductive yields ::
  "('i \<Rightarrow> failure + (cstring option \<times> 'i)) \<Rightarrow> 'i \<Rightarrow> cstring list \<Rightarrow> 'i \<Rightarrow> bool"
  for nxt :: "'i \<Rightarrow> failure + (cstring option \<times> 'i)" where
  finished: "nxt i = Inr (None, i') \<Longrightarrow> yields nxt i [] i'"
| another: "nxt i = Inr (Some v, i') \<Longrightarrow> yields nxt i' vs i'' \<Longrightarrow> yields nxt i (v # vs) i''"

section \<open>Notions for the statements, and examples to run the code on\<close>

subsection \<open>The invariant of the hash table\<close>

text \<open>
  \<^verbatim>\<open>bucket c n\<close> is the chain a node belongs to under capacity \<^verbatim>\<open>c\<close>. The invariant of an
  index: the capacity is a power of two, \<^verbatim>\<open>position\<close> counts the constructed nodes, and
  chain \<^verbatim>\<open>i\<close> holds the nodes of bucket \<^verbatim>\<open>i\<close>, the latest first.
\<close>

definition bucket :: "u32 \<Rightarrow> node \<Rightarrow> nat" where
  "bucket c n = unat (hash n AND (c - 1))"

definition index_inv :: "jar_index \<Rightarrow> bool" where
  "index_inv ix \<longleftrightarrow>
     (\<exists>k. k < 32 \<and> capacity ix = 2 ^ k) \<and>
     position ix = of_nat (length (nodes ix)) \<and>
     length (nodes ix) \<le> unat (capacity ix) \<and>
     length (table ix) = unat (capacity ix) \<and>
     (\<forall>i < unat (capacity ix). table ix ! i = rev (filter (\<lambda>n. bucket (capacity ix) n = i) (nodes ix)))"

definition hashed :: "(u8 list \<Rightarrow> u32) \<Rightarrow> memory \<Rightarrow> jar_index \<Rightarrow> bool" where
  "hashed hashB m ix \<longleftrightarrow> (\<forall>n \<in> set (nodes ix). hash n = hashB (entryName m (entry n)))"

inductive built :: "(u8 list \<Rightarrow> u32) \<Rightarrow> memory \<Rightarrow> jar_index \<Rightarrow> bool"
  for hashB :: "u8 list \<Rightarrow> u32" and m :: memory where
  fresh: "built hashB m (JarIndex_make 32)"
| added: "built hashB m ix \<Longrightarrow> add ix (hashB (entryName m p)) p = Some ix' \<Longrightarrow> built hashB m ix'"

text \<open>
  A sequence of calls of \<^verbatim>\<open>add\<close>, each on the index that the call before it returned
  (\<^verbatim>\<open>index = index->add(hash, entry)\<close>). The arguments of a call, the hash and the pointer
  to the central header, are written as the node that the call constructs.
\<close>

fun add_all :: "jar_index \<Rightarrow> node list \<Rightarrow> jar_index option" where
  "add_all index [] = Some index"
| "add_all index (n # ns) =
     (case add index (hash n) (entry n) of
        None \<Rightarrow> None
      | Some index' \<Rightarrow> add_all index' ns)"

subsection \<open>An archive and a System to run the code on\<close>

text \<open>
  A ZIP archive of 267 bytes, mapped at address 4096, with three entries: \<^verbatim>\<open>A\<close> (stored,
  the bytes of \<^verbatim>\<open>hi\<close>), \<^verbatim>\<open>B\<close> (deflated, seven bytes that inflate to \<^verbatim>\<open>hello\<close>) and a second
  \<^verbatim>\<open>A\<close> (stored, the bytes of \<^verbatim>\<open>yo\<close>). The local headers are at offsets 0, 33 and 71, the
  central headers at 104, 151 and 198, the end of central directory record at 245.
  The bytes of the archive are the addresses that are mapped.
\<close>

definition example_archive :: "u8 list" where
  "example_archive =
    [0x50, 0x4B, 0x03, 0x04, 0x14, 0x00, 0x00, 0x00, 0x00, 0x00, 0x00, 0x00, 0x00, 0x00, 0xAC, 0x2A,
     0x93, 0xD8, 0x02, 0x00, 0x00, 0x00, 0x02, 0x00, 0x00, 0x00, 0x01, 0x00, 0x00, 0x00, 0x41, 0x68,
     0x69, 0x50, 0x4B, 0x03, 0x04, 0x14, 0x00, 0x00, 0x00, 0x08, 0x00, 0x00, 0x00, 0x00, 0x00, 0x86,
     0xA6, 0x10, 0x36, 0x07, 0x00, 0x00, 0x00, 0x05, 0x00, 0x00, 0x00, 0x01, 0x00, 0x00, 0x00, 0x42,
     0xCB, 0x48, 0xCD, 0xC9, 0xC9, 0x07, 0x00, 0x50, 0x4B, 0x03, 0x04, 0x14, 0x00, 0x00, 0x00, 0x00,
     0x00, 0x00, 0x00, 0x00, 0x00, 0x89, 0xAC, 0x29, 0x62, 0x02, 0x00, 0x00, 0x00, 0x02, 0x00, 0x00,
     0x00, 0x01, 0x00, 0x00, 0x00, 0x41, 0x79, 0x6F, 0x50, 0x4B, 0x01, 0x02, 0x14, 0x00, 0x14, 0x00,
     0x00, 0x00, 0x00, 0x00, 0x00, 0x00, 0x00, 0x00, 0xAC, 0x2A, 0x93, 0xD8, 0x02, 0x00, 0x00, 0x00,
     0x02, 0x00, 0x00, 0x00, 0x01, 0x00, 0x00, 0x00, 0x00, 0x00, 0x00, 0x00, 0x00, 0x00, 0x00, 0x00,
     0x00, 0x00, 0x00, 0x00, 0x00, 0x00, 0x41, 0x50, 0x4B, 0x01, 0x02, 0x14, 0x00, 0x14, 0x00, 0x00,
     0x00, 0x08, 0x00, 0x00, 0x00, 0x00, 0x00, 0x86, 0xA6, 0x10, 0x36, 0x07, 0x00, 0x00, 0x00, 0x05,
     0x00, 0x00, 0x00, 0x01, 0x00, 0x00, 0x00, 0x00, 0x00, 0x00, 0x00, 0x00, 0x00, 0x00, 0x00, 0x00,
     0x00, 0x21, 0x00, 0x00, 0x00, 0x42, 0x50, 0x4B, 0x01, 0x02, 0x14, 0x00, 0x14, 0x00, 0x00, 0x00,
     0x00, 0x00, 0x00, 0x00, 0x00, 0x00, 0x89, 0xAC, 0x29, 0x62, 0x02, 0x00, 0x00, 0x00, 0x02, 0x00,
     0x00, 0x00, 0x01, 0x00, 0x00, 0x00, 0x00, 0x00, 0x00, 0x00, 0x00, 0x00, 0x00, 0x00, 0x00, 0x00,
     0x47, 0x00, 0x00, 0x00, 0x41, 0x50, 0x4B, 0x05, 0x06, 0x00, 0x00, 0x00, 0x00, 0x03, 0x00, 0x03,
     0x00, 0x8D, 0x00, 0x00, 0x00, 0x68, 0x00, 0x00, 0x00, 0x00, 0x00]"

definition example_memory :: memory where
  "example_memory a =
     (if 4096 \<le> a \<and> a < 4096 + 267 then example_archive ! nat (a - 4096) else 0)"

definition example_region :: span where
  "example_region = \<lparr>span_start = 4096, span_length = 267\<rparr>"

definition example_mapped :: "addr \<Rightarrow> bool" where
  "example_mapped a = (4096 \<le> a \<and> a < 4096 + 267)"

text \<open>A hash to run the code with: both overloads multiply by 31 and add the byte.\<close>

definition example_hash :: "u8 list \<Rightarrow> u32" where
  "example_hash bs = foldl (\<lambda>h b. h * 31 + ucast b) 0 bs"

text \<open>
  An inflate to run the code with. Given input that starts with the seven bytes of entry
  \<^verbatim>\<open>B\<close> and room for five bytes, it writes \<^verbatim>\<open>hello\<close> and returns \<^verbatim>\<open>Z_STREAM_END\<close>, leaving the
  rest of the input and of the room as they are, which is what zlib does at the end of a
  deflate stream; else it reads all of its input and returns an error code.
\<close>

definition example_codec :: codec where
  "example_codec =
     \<lparr>inflateInit2 = (\<lambda>windowBits. 0),
      inflate = (\<lambda>input room flush.
        if take 7 input = map Some [0xCB, 0x48, 0xCD, 0xC9, 0xC9, 0x07, 0x00] \<and> 5 \<le> room
        then Some \<lparr>ret = 1, written = [0x68, 0x65, 0x6C, 0x6C, 0x6F],
                    avail_in = length input - 7, avail_out = room - 5\<rparr>
        else if None \<in> set input then None
        else Some \<lparr>ret = - 3, written = [], avail_in = length input, avail_out = room\<rparr>)\<rparr>"

text \<open>
  A System to run the code with. The file \<^verbatim>\<open>a.jar\<close> is the archive; the directory \<^verbatim>\<open>cp\<close>
  holds \<^verbatim>\<open>.git\<close>, the file \<^verbatim>\<open>A\<close> and the directory \<^verbatim>\<open>pkg\<close>, which holds the file \<^verbatim>\<open>X\<close> and
  \<^verbatim>\<open>.hidden\<close>. The two files are mapped onto bytes of the archive (those of \<^verbatim>\<open>hi\<close> and of
  \<^verbatim>\<open>yo\<close>), a directory cannot be mapped, and the boot library exports the archive as
  \<^verbatim>\<open>boot\<close>.
\<close>

definition bytes :: "string \<Rightarrow> cstring" where
  "bytes cs = map of_char cs"

definition example_env :: env where
  "example_env =
     \<lparr>env_memory = example_memory,
      env_mapped = example_mapped,
      env_identify = (\<lambda>p.
        if p = bytes ''cp'' \<or> p = bytes ''cp/pkg'' \<or> p = bytes ''cp/.git'' then TypeDirectory
        else if p = bytes ''a.jar'' \<or> p = bytes ''cp/A'' \<or> p = bytes ''cp/pkg/X''
                \<or> p = bytes ''cp/pkg/.hidden'' then TypeFile
        else TypeDoesNotExist),
      env_map = (\<lambda>p.
        if p = bytes ''a.jar'' then Some example_region
        else if p = bytes ''cp/A'' then Some \<lparr>span_start = 4127, span_length = 2\<rparr>
        else if p = bytes ''cp/pkg/X'' then Some \<lparr>span_start = 4198, span_length = 2\<rparr>
        else None),
      env_open = (\<lambda>p.
        if p = bytes ''cp'' then Some [bytes ''.git'', bytes ''A'', bytes ''pkg'']
        else if p = bytes ''cp/pkg'' then Some [bytes ''X'', bytes ''.hidden'']
        else if p = bytes ''cp/.git'' then Some [bytes ''config'']
        else None),
      env_load = (\<lambda>libraryName.
        if libraryName = None
        then Some (\<lambda>symbol. if symbol = bytes ''boot'' then Some (Some example_region) else None)
        else None),
      env_hashN = example_hash,
      env_hashB = example_hash,
      env_zlib = example_codec\<rparr>"

text \<open>The index that \<^verbatim>\<open>open\<close> builds from the archive.\<close>

definition example_index :: jar_index where
  "example_index =
     \<lparr>capacity = 32, position = 3,
      nodes = [\<lparr>hash = 0x41, entry = 4200\<rparr>, \<lparr>hash = 0x42, entry = 4247\<rparr>,
               \<lparr>hash = 0x41, entry = 4294\<rparr>],
      table = (replicate 32 [])
        [1 := [\<lparr>hash = 0x41, entry = 4294\<rparr>, \<lparr>hash = 0x41, entry = 4200\<rparr>],
         2 := [\<lparr>hash = 0x42, entry = 4247\<rparr>]]\<rparr>"

text \<open>The index that three calls of \<^verbatim>\<open>add\<close> build from \<^verbatim>\<open>make(s, 1)\<close>, with the central
  headers of the archive in their order: it is doubled at the second and at the third.\<close>

definition grown_index :: jar_index where
  "grown_index =
     \<lparr>capacity = 4, position = 3,
      nodes = [\<lparr>hash = 0x41, entry = 4200\<rparr>, \<lparr>hash = 0x42, entry = 4247\<rparr>,
               \<lparr>hash = 0x41, entry = 4294\<rparr>],
      table = (replicate 4 [])
        [1 := [\<lparr>hash = 0x41, entry = 4294\<rparr>, \<lparr>hash = 0x41, entry = 4200\<rparr>],
         2 := [\<lparr>hash = 0x42, entry = 4247\<rparr>]]\<rparr>"

subsection \<open>The records of a central directory\<close>

text \<open>\<^verbatim>\<open>records m endp p ps q\<close>: from \<^verbatim>\<open>p\<close> on, the central headers \<^verbatim>\<open>ps\<close> follow one another below
  \<^verbatim>\<open>endp\<close>, each with the signature of a central header, and the last of them ends at \<^verbatim>\<open>q\<close>.\<close>

fun records :: "memory \<Rightarrow> addr \<Rightarrow> addr \<Rightarrow> addr list \<Rightarrow> addr \<Rightarrow> bool" where
  "records m endp p [] q = (q = p)"
| "records m endp p (x # xs) q =
     (x = p \<and> p < endp \<and> signature m p = 0x02014b50 \<and> records m endp (endOfEntry m p) xs q)"

definition node_of :: "(u8 list \<Rightarrow> u32) \<Rightarrow> memory \<Rightarrow> addr \<Rightarrow> node" where
  "node_of hashB m p = \<lparr>hash = hashB (entryName m p), entry = p\<rparr>"

text \<open>
  The central directory of the archive in a region, as \<^verbatim>\<open>open\<close> comes to it: \<^verbatim>\<open>e\<close> is the
  first pointer that the backward scan finds with the signature of the end of central
  directory record, the central headers \<^verbatim>\<open>ps\<close> follow one another from the offset recorded
  there, and after the last of them, below the end of the region, the record \<^verbatim>\<open>q\<close> has
  another signature.
\<close>

definition directory_of :: "memory \<Rightarrow> span \<Rightarrow> addr \<Rightarrow> addr list \<Rightarrow> addr \<Rightarrow> bool" where
  "directory_of m region e ps q \<longleftrightarrow>
     span_start region < e \<and> e \<le> span_start region + int (span_length region) - 22 \<and>
     signature m e = 0x06054b50 \<and>
     (\<forall>p. e < p \<and> p \<le> span_start region + int (span_length region) - 22 \<longrightarrow>
          signature m p \<noteq> 0x06054b50) \<and>
     records m (span_start region + int (span_length region))
       (span_start region + uint (centralDirectoryOffset m e)) ps q \<and>
     q < span_start region + int (span_length region) \<and>
     signature m q \<noteq> 0x02014b50"


text \<open>The smallest archive: an end of central directory record and nothing else, mapped
  at address 4096.\<close>

definition empty_archive :: "u8 list" where
  "empty_archive =
     [0x50, 0x4B, 0x05, 0x06, 0x00, 0x00, 0x00, 0x00, 0x00, 0x00, 0x00,
      0x00, 0x00, 0x00, 0x00, 0x00, 0x00, 0x00, 0x00, 0x00, 0x00, 0x00]"

definition empty_memory :: memory where
  "empty_memory a =
     (if 4096 \<le> a \<and> a < 4096 + 22 then empty_archive ! nat (a - 4096) else 0)"

subsection \<open>An archive with two fields changed\<close>

text \<open>
  The archive again, with two fields of its central directory changed: entry \<^verbatim>\<open>B\<close> declares
  an uncompressed size of 500 (its data still inflate to five bytes), and the second
  entry \<^verbatim>\<open>A\<close> declares the compression method 12.
\<close>

definition damaged_archive :: "u8 list" where
  "damaged_archive = example_archive[175 := 0xF4, 176 := 0x01, 208 := 0x0C]"

definition damaged_memory :: memory where
  "damaged_memory a =
     (if 4096 \<le> a \<and> a < 4096 + 267 then damaged_archive ! nat (a - 4096) else 0)"

subsection \<open>An archive whose central header runs to the end of the region\<close>

text \<open>
  68 bytes, mapped at address 4096: a central header at offset 0 with an empty name and a
  comment of 22 bytes, and the end of central directory record at offset 46, inside
  that comment, giving 0 as the offset of the central directory.
\<close>

definition overrun_archive :: "u8 list" where
  "overrun_archive =
     [0x50, 0x4B, 0x01, 0x02, 0x00, 0x00, 0x00, 0x00, 0x00, 0x00, 0x00, 0x00, 0x00, 0x00, 0x00, 0x00,
      0x00, 0x00, 0x00, 0x00, 0x00, 0x00, 0x00, 0x00, 0x00, 0x00, 0x00, 0x00, 0x00, 0x00, 0x00, 0x00,
      0x16, 0x00, 0x00, 0x00, 0x00, 0x00, 0x00, 0x00, 0x00, 0x00, 0x00, 0x00, 0x00, 0x00,
      0x50, 0x4B, 0x05, 0x06, 0x00, 0x00, 0x00, 0x00, 0x00, 0x00, 0x00, 0x00, 0x00, 0x00, 0x00, 0x00,
      0x00, 0x00, 0x00, 0x00, 0x00, 0x00]"

definition overrun_memory :: memory where
  "overrun_memory a =
     (if 4096 \<le> a \<and> a < 4096 + 68 then overrun_archive ! nat (a - 4096) else 0)"

definition overrun_region :: span where
  "overrun_region = \<lparr>span_start = 4096, span_length = 68\<rparr>"

subsection \<open>An archive whose local header offset leads out of it\<close>

text \<open>
  The archive again, with the local header offset of the second entry \<^verbatim>\<open>A\<close> changed to
  \<^verbatim>\<open>0xFFFFFFF0\<close>: the local header would lie far above the mapped bytes.
\<close>

definition stray_archive :: "u8 list" where
  "stray_archive = example_archive[240 := 0xF0, 241 := 0xFF, 242 := 0xFF, 243 := 0xFF]"


subsection \<open>An archive with more entries than the first index can take\<close>

text \<open>
  A ZIP archive of 2684 bytes, mapped at address 8192, with 34 stored entries. Their
  names, in the order of the central directory:
  \<^verbatim>\<open>A b c d e A g d/X h i j k l m n o p q r s t u v w x y z 0 1 2 3 4 5 6\<close>. The first \<^verbatim>\<open>A\<close> holds the bytes of \<^verbatim>\<open>hi\<close>, the second those of \<^verbatim>\<open>yo\<close>,
  \<^verbatim>\<open>d/X\<close> those of \<^verbatim>\<open>ok\<close>, the others are empty. The central directory is at offset 1062,
  the end of central directory record at offset 2662. The bytes are written in pieces
  of 256.
\<close>

definition big_bytes0 :: "u8 list" where
  "big_bytes0 =
    [0x50, 0x4B, 0x03, 0x04, 0x14, 0x00, 0x00, 0x00, 0x00, 0x00, 0x00, 0x00, 0x00, 0x00, 0xAC, 0x2A,
     0x93, 0xD8, 0x02, 0x00, 0x00, 0x00, 0x02, 0x00, 0x00, 0x00, 0x01, 0x00, 0x00, 0x00, 0x41, 0x68,
     0x69, 0x50, 0x4B, 0x03, 0x04, 0x14, 0x00, 0x00, 0x00, 0x00, 0x00, 0x00, 0x00, 0x00, 0x00, 0x00,
     0x00, 0x00, 0x00, 0x00, 0x00, 0x00, 0x00, 0x00, 0x00, 0x00, 0x00, 0x01, 0x00, 0x00, 0x00, 0x62,
     0x50, 0x4B, 0x03, 0x04, 0x14, 0x00, 0x00, 0x00, 0x00, 0x00, 0x00, 0x00, 0x00, 0x00, 0x00, 0x00,
     0x00, 0x00, 0x00, 0x00, 0x00, 0x00, 0x00, 0x00, 0x00, 0x00, 0x01, 0x00, 0x00, 0x00, 0x63, 0x50,
     0x4B, 0x03, 0x04, 0x14, 0x00, 0x00, 0x00, 0x00, 0x00, 0x00, 0x00, 0x00, 0x00, 0x00, 0x00, 0x00,
     0x00, 0x00, 0x00, 0x00, 0x00, 0x00, 0x00, 0x00, 0x00, 0x01, 0x00, 0x00, 0x00, 0x64, 0x50, 0x4B,
     0x03, 0x04, 0x14, 0x00, 0x00, 0x00, 0x00, 0x00, 0x00, 0x00, 0x00, 0x00, 0x00, 0x00, 0x00, 0x00,
     0x00, 0x00, 0x00, 0x00, 0x00, 0x00, 0x00, 0x00, 0x01, 0x00, 0x00, 0x00, 0x65, 0x50, 0x4B, 0x03,
     0x04, 0x14, 0x00, 0x00, 0x00, 0x00, 0x00, 0x00, 0x00, 0x00, 0x00, 0x89, 0xAC, 0x29, 0x62, 0x02,
     0x00, 0x00, 0x00, 0x02, 0x00, 0x00, 0x00, 0x01, 0x00, 0x00, 0x00, 0x41, 0x79, 0x6F, 0x50, 0x4B,
     0x03, 0x04, 0x14, 0x00, 0x00, 0x00, 0x00, 0x00, 0x00, 0x00, 0x00, 0x00, 0x00, 0x00, 0x00, 0x00,
     0x00, 0x00, 0x00, 0x00, 0x00, 0x00, 0x00, 0x00, 0x01, 0x00, 0x00, 0x00, 0x67, 0x50, 0x4B, 0x03,
     0x04, 0x14, 0x00, 0x00, 0x00, 0x00, 0x00, 0x00, 0x00, 0x00, 0x00, 0x47, 0xDD, 0xDC, 0x79, 0x02,
     0x00, 0x00, 0x00, 0x02, 0x00, 0x00, 0x00, 0x03, 0x00, 0x00, 0x00, 0x64, 0x2F, 0x58, 0x6F, 0x6B]"

definition big_bytes1 :: "u8 list" where
  "big_bytes1 =
    [0x50, 0x4B, 0x03, 0x04, 0x14, 0x00, 0x00, 0x00, 0x00, 0x00, 0x00, 0x00, 0x00, 0x00, 0x00, 0x00,
     0x00, 0x00, 0x00, 0x00, 0x00, 0x00, 0x00, 0x00, 0x00, 0x00, 0x01, 0x00, 0x00, 0x00, 0x68, 0x50,
     0x4B, 0x03, 0x04, 0x14, 0x00, 0x00, 0x00, 0x00, 0x00, 0x00, 0x00, 0x00, 0x00, 0x00, 0x00, 0x00,
     0x00, 0x00, 0x00, 0x00, 0x00, 0x00, 0x00, 0x00, 0x00, 0x01, 0x00, 0x00, 0x00, 0x69, 0x50, 0x4B,
     0x03, 0x04, 0x14, 0x00, 0x00, 0x00, 0x00, 0x00, 0x00, 0x00, 0x00, 0x00, 0x00, 0x00, 0x00, 0x00,
     0x00, 0x00, 0x00, 0x00, 0x00, 0x00, 0x00, 0x00, 0x01, 0x00, 0x00, 0x00, 0x6A, 0x50, 0x4B, 0x03,
     0x04, 0x14, 0x00, 0x00, 0x00, 0x00, 0x00, 0x00, 0x00, 0x00, 0x00, 0x00, 0x00, 0x00, 0x00, 0x00,
     0x00, 0x00, 0x00, 0x00, 0x00, 0x00, 0x00, 0x01, 0x00, 0x00, 0x00, 0x6B, 0x50, 0x4B, 0x03, 0x04,
     0x14, 0x00, 0x00, 0x00, 0x00, 0x00, 0x00, 0x00, 0x00, 0x00, 0x00, 0x00, 0x00, 0x00, 0x00, 0x00,
     0x00, 0x00, 0x00, 0x00, 0x00, 0x00, 0x01, 0x00, 0x00, 0x00, 0x6C, 0x50, 0x4B, 0x03, 0x04, 0x14,
     0x00, 0x00, 0x00, 0x00, 0x00, 0x00, 0x00, 0x00, 0x00, 0x00, 0x00, 0x00, 0x00, 0x00, 0x00, 0x00,
     0x00, 0x00, 0x00, 0x00, 0x00, 0x01, 0x00, 0x00, 0x00, 0x6D, 0x50, 0x4B, 0x03, 0x04, 0x14, 0x00,
     0x00, 0x00, 0x00, 0x00, 0x00, 0x00, 0x00, 0x00, 0x00, 0x00, 0x00, 0x00, 0x00, 0x00, 0x00, 0x00,
     0x00, 0x00, 0x00, 0x00, 0x01, 0x00, 0x00, 0x00, 0x6E, 0x50, 0x4B, 0x03, 0x04, 0x14, 0x00, 0x00,
     0x00, 0x00, 0x00, 0x00, 0x00, 0x00, 0x00, 0x00, 0x00, 0x00, 0x00, 0x00, 0x00, 0x00, 0x00, 0x00,
     0x00, 0x00, 0x00, 0x01, 0x00, 0x00, 0x00, 0x6F, 0x50, 0x4B, 0x03, 0x04, 0x14, 0x00, 0x00, 0x00]"

definition big_bytes2 :: "u8 list" where
  "big_bytes2 =
    [0x00, 0x00, 0x00, 0x00, 0x00, 0x00, 0x00, 0x00, 0x00, 0x00, 0x00, 0x00, 0x00, 0x00, 0x00, 0x00,
     0x00, 0x00, 0x01, 0x00, 0x00, 0x00, 0x70, 0x50, 0x4B, 0x03, 0x04, 0x14, 0x00, 0x00, 0x00, 0x00,
     0x00, 0x00, 0x00, 0x00, 0x00, 0x00, 0x00, 0x00, 0x00, 0x00, 0x00, 0x00, 0x00, 0x00, 0x00, 0x00,
     0x00, 0x01, 0x00, 0x00, 0x00, 0x71, 0x50, 0x4B, 0x03, 0x04, 0x14, 0x00, 0x00, 0x00, 0x00, 0x00,
     0x00, 0x00, 0x00, 0x00, 0x00, 0x00, 0x00, 0x00, 0x00, 0x00, 0x00, 0x00, 0x00, 0x00, 0x00, 0x00,
     0x01, 0x00, 0x00, 0x00, 0x72, 0x50, 0x4B, 0x03, 0x04, 0x14, 0x00, 0x00, 0x00, 0x00, 0x00, 0x00,
     0x00, 0x00, 0x00, 0x00, 0x00, 0x00, 0x00, 0x00, 0x00, 0x00, 0x00, 0x00, 0x00, 0x00, 0x00, 0x01,
     0x00, 0x00, 0x00, 0x73, 0x50, 0x4B, 0x03, 0x04, 0x14, 0x00, 0x00, 0x00, 0x00, 0x00, 0x00, 0x00,
     0x00, 0x00, 0x00, 0x00, 0x00, 0x00, 0x00, 0x00, 0x00, 0x00, 0x00, 0x00, 0x00, 0x00, 0x01, 0x00,
     0x00, 0x00, 0x74, 0x50, 0x4B, 0x03, 0x04, 0x14, 0x00, 0x00, 0x00, 0x00, 0x00, 0x00, 0x00, 0x00,
     0x00, 0x00, 0x00, 0x00, 0x00, 0x00, 0x00, 0x00, 0x00, 0x00, 0x00, 0x00, 0x00, 0x01, 0x00, 0x00,
     0x00, 0x75, 0x50, 0x4B, 0x03, 0x04, 0x14, 0x00, 0x00, 0x00, 0x00, 0x00, 0x00, 0x00, 0x00, 0x00,
     0x00, 0x00, 0x00, 0x00, 0x00, 0x00, 0x00, 0x00, 0x00, 0x00, 0x00, 0x00, 0x01, 0x00, 0x00, 0x00,
     0x76, 0x50, 0x4B, 0x03, 0x04, 0x14, 0x00, 0x00, 0x00, 0x00, 0x00, 0x00, 0x00, 0x00, 0x00, 0x00,
     0x00, 0x00, 0x00, 0x00, 0x00, 0x00, 0x00, 0x00, 0x00, 0x00, 0x00, 0x01, 0x00, 0x00, 0x00, 0x77,
     0x50, 0x4B, 0x03, 0x04, 0x14, 0x00, 0x00, 0x00, 0x00, 0x00, 0x00, 0x00, 0x00, 0x00, 0x00, 0x00]"

definition big_bytes3 :: "u8 list" where
  "big_bytes3 =
    [0x00, 0x00, 0x00, 0x00, 0x00, 0x00, 0x00, 0x00, 0x00, 0x00, 0x01, 0x00, 0x00, 0x00, 0x78, 0x50,
     0x4B, 0x03, 0x04, 0x14, 0x00, 0x00, 0x00, 0x00, 0x00, 0x00, 0x00, 0x00, 0x00, 0x00, 0x00, 0x00,
     0x00, 0x00, 0x00, 0x00, 0x00, 0x00, 0x00, 0x00, 0x00, 0x01, 0x00, 0x00, 0x00, 0x79, 0x50, 0x4B,
     0x03, 0x04, 0x14, 0x00, 0x00, 0x00, 0x00, 0x00, 0x00, 0x00, 0x00, 0x00, 0x00, 0x00, 0x00, 0x00,
     0x00, 0x00, 0x00, 0x00, 0x00, 0x00, 0x00, 0x00, 0x01, 0x00, 0x00, 0x00, 0x7A, 0x50, 0x4B, 0x03,
     0x04, 0x14, 0x00, 0x00, 0x00, 0x00, 0x00, 0x00, 0x00, 0x00, 0x00, 0x00, 0x00, 0x00, 0x00, 0x00,
     0x00, 0x00, 0x00, 0x00, 0x00, 0x00, 0x00, 0x01, 0x00, 0x00, 0x00, 0x30, 0x50, 0x4B, 0x03, 0x04,
     0x14, 0x00, 0x00, 0x00, 0x00, 0x00, 0x00, 0x00, 0x00, 0x00, 0x00, 0x00, 0x00, 0x00, 0x00, 0x00,
     0x00, 0x00, 0x00, 0x00, 0x00, 0x00, 0x01, 0x00, 0x00, 0x00, 0x31, 0x50, 0x4B, 0x03, 0x04, 0x14,
     0x00, 0x00, 0x00, 0x00, 0x00, 0x00, 0x00, 0x00, 0x00, 0x00, 0x00, 0x00, 0x00, 0x00, 0x00, 0x00,
     0x00, 0x00, 0x00, 0x00, 0x00, 0x01, 0x00, 0x00, 0x00, 0x32, 0x50, 0x4B, 0x03, 0x04, 0x14, 0x00,
     0x00, 0x00, 0x00, 0x00, 0x00, 0x00, 0x00, 0x00, 0x00, 0x00, 0x00, 0x00, 0x00, 0x00, 0x00, 0x00,
     0x00, 0x00, 0x00, 0x00, 0x01, 0x00, 0x00, 0x00, 0x33, 0x50, 0x4B, 0x03, 0x04, 0x14, 0x00, 0x00,
     0x00, 0x00, 0x00, 0x00, 0x00, 0x00, 0x00, 0x00, 0x00, 0x00, 0x00, 0x00, 0x00, 0x00, 0x00, 0x00,
     0x00, 0x00, 0x00, 0x01, 0x00, 0x00, 0x00, 0x34, 0x50, 0x4B, 0x03, 0x04, 0x14, 0x00, 0x00, 0x00,
     0x00, 0x00, 0x00, 0x00, 0x00, 0x00, 0x00, 0x00, 0x00, 0x00, 0x00, 0x00, 0x00, 0x00, 0x00, 0x00]"

definition big_bytes4 :: "u8 list" where
  "big_bytes4 =
    [0x00, 0x00, 0x01, 0x00, 0x00, 0x00, 0x35, 0x50, 0x4B, 0x03, 0x04, 0x14, 0x00, 0x00, 0x00, 0x00,
     0x00, 0x00, 0x00, 0x00, 0x00, 0x00, 0x00, 0x00, 0x00, 0x00, 0x00, 0x00, 0x00, 0x00, 0x00, 0x00,
     0x00, 0x01, 0x00, 0x00, 0x00, 0x36, 0x50, 0x4B, 0x01, 0x02, 0x14, 0x00, 0x14, 0x00, 0x00, 0x00,
     0x00, 0x00, 0x00, 0x00, 0x00, 0x00, 0xAC, 0x2A, 0x93, 0xD8, 0x02, 0x00, 0x00, 0x00, 0x02, 0x00,
     0x00, 0x00, 0x01, 0x00, 0x00, 0x00, 0x00, 0x00, 0x00, 0x00, 0x00, 0x00, 0x00, 0x00, 0x00, 0x00,
     0x00, 0x00, 0x00, 0x00, 0x41, 0x50, 0x4B, 0x01, 0x02, 0x14, 0x00, 0x14, 0x00, 0x00, 0x00, 0x00,
     0x00, 0x00, 0x00, 0x00, 0x00, 0x00, 0x00, 0x00, 0x00, 0x00, 0x00, 0x00, 0x00, 0x00, 0x00, 0x00,
     0x00, 0x01, 0x00, 0x00, 0x00, 0x00, 0x00, 0x00, 0x00, 0x00, 0x00, 0x00, 0x00, 0x00, 0x00, 0x21,
     0x00, 0x00, 0x00, 0x62, 0x50, 0x4B, 0x01, 0x02, 0x14, 0x00, 0x14, 0x00, 0x00, 0x00, 0x00, 0x00,
     0x00, 0x00, 0x00, 0x00, 0x00, 0x00, 0x00, 0x00, 0x00, 0x00, 0x00, 0x00, 0x00, 0x00, 0x00, 0x00,
     0x01, 0x00, 0x00, 0x00, 0x00, 0x00, 0x00, 0x00, 0x00, 0x00, 0x00, 0x00, 0x00, 0x00, 0x40, 0x00,
     0x00, 0x00, 0x63, 0x50, 0x4B, 0x01, 0x02, 0x14, 0x00, 0x14, 0x00, 0x00, 0x00, 0x00, 0x00, 0x00,
     0x00, 0x00, 0x00, 0x00, 0x00, 0x00, 0x00, 0x00, 0x00, 0x00, 0x00, 0x00, 0x00, 0x00, 0x00, 0x01,
     0x00, 0x00, 0x00, 0x00, 0x00, 0x00, 0x00, 0x00, 0x00, 0x00, 0x00, 0x00, 0x00, 0x5F, 0x00, 0x00,
     0x00, 0x64, 0x50, 0x4B, 0x01, 0x02, 0x14, 0x00, 0x14, 0x00, 0x00, 0x00, 0x00, 0x00, 0x00, 0x00,
     0x00, 0x00, 0x00, 0x00, 0x00, 0x00, 0x00, 0x00, 0x00, 0x00, 0x00, 0x00, 0x00, 0x00, 0x01, 0x00]"

definition big_bytes5 :: "u8 list" where
  "big_bytes5 =
    [0x00, 0x00, 0x00, 0x00, 0x00, 0x00, 0x00, 0x00, 0x00, 0x00, 0x00, 0x00, 0x7E, 0x00, 0x00, 0x00,
     0x65, 0x50, 0x4B, 0x01, 0x02, 0x14, 0x00, 0x14, 0x00, 0x00, 0x00, 0x00, 0x00, 0x00, 0x00, 0x00,
     0x00, 0x89, 0xAC, 0x29, 0x62, 0x02, 0x00, 0x00, 0x00, 0x02, 0x00, 0x00, 0x00, 0x01, 0x00, 0x00,
     0x00, 0x00, 0x00, 0x00, 0x00, 0x00, 0x00, 0x00, 0x00, 0x00, 0x00, 0x9D, 0x00, 0x00, 0x00, 0x41,
     0x50, 0x4B, 0x01, 0x02, 0x14, 0x00, 0x14, 0x00, 0x00, 0x00, 0x00, 0x00, 0x00, 0x00, 0x00, 0x00,
     0x00, 0x00, 0x00, 0x00, 0x00, 0x00, 0x00, 0x00, 0x00, 0x00, 0x00, 0x00, 0x01, 0x00, 0x00, 0x00,
     0x00, 0x00, 0x00, 0x00, 0x00, 0x00, 0x00, 0x00, 0x00, 0x00, 0xBE, 0x00, 0x00, 0x00, 0x67, 0x50,
     0x4B, 0x01, 0x02, 0x14, 0x00, 0x14, 0x00, 0x00, 0x00, 0x00, 0x00, 0x00, 0x00, 0x00, 0x00, 0x47,
     0xDD, 0xDC, 0x79, 0x02, 0x00, 0x00, 0x00, 0x02, 0x00, 0x00, 0x00, 0x03, 0x00, 0x00, 0x00, 0x00,
     0x00, 0x00, 0x00, 0x00, 0x00, 0x00, 0x00, 0x00, 0x00, 0xDD, 0x00, 0x00, 0x00, 0x64, 0x2F, 0x58,
     0x50, 0x4B, 0x01, 0x02, 0x14, 0x00, 0x14, 0x00, 0x00, 0x00, 0x00, 0x00, 0x00, 0x00, 0x00, 0x00,
     0x00, 0x00, 0x00, 0x00, 0x00, 0x00, 0x00, 0x00, 0x00, 0x00, 0x00, 0x00, 0x01, 0x00, 0x00, 0x00,
     0x00, 0x00, 0x00, 0x00, 0x00, 0x00, 0x00, 0x00, 0x00, 0x00, 0x00, 0x01, 0x00, 0x00, 0x68, 0x50,
     0x4B, 0x01, 0x02, 0x14, 0x00, 0x14, 0x00, 0x00, 0x00, 0x00, 0x00, 0x00, 0x00, 0x00, 0x00, 0x00,
     0x00, 0x00, 0x00, 0x00, 0x00, 0x00, 0x00, 0x00, 0x00, 0x00, 0x00, 0x01, 0x00, 0x00, 0x00, 0x00,
     0x00, 0x00, 0x00, 0x00, 0x00, 0x00, 0x00, 0x00, 0x00, 0x1F, 0x01, 0x00, 0x00, 0x69, 0x50, 0x4B]"

definition big_bytes6 :: "u8 list" where
  "big_bytes6 =
    [0x01, 0x02, 0x14, 0x00, 0x14, 0x00, 0x00, 0x00, 0x00, 0x00, 0x00, 0x00, 0x00, 0x00, 0x00, 0x00,
     0x00, 0x00, 0x00, 0x00, 0x00, 0x00, 0x00, 0x00, 0x00, 0x00, 0x01, 0x00, 0x00, 0x00, 0x00, 0x00,
     0x00, 0x00, 0x00, 0x00, 0x00, 0x00, 0x00, 0x00, 0x3E, 0x01, 0x00, 0x00, 0x6A, 0x50, 0x4B, 0x01,
     0x02, 0x14, 0x00, 0x14, 0x00, 0x00, 0x00, 0x00, 0x00, 0x00, 0x00, 0x00, 0x00, 0x00, 0x00, 0x00,
     0x00, 0x00, 0x00, 0x00, 0x00, 0x00, 0x00, 0x00, 0x00, 0x01, 0x00, 0x00, 0x00, 0x00, 0x00, 0x00,
     0x00, 0x00, 0x00, 0x00, 0x00, 0x00, 0x00, 0x5D, 0x01, 0x00, 0x00, 0x6B, 0x50, 0x4B, 0x01, 0x02,
     0x14, 0x00, 0x14, 0x00, 0x00, 0x00, 0x00, 0x00, 0x00, 0x00, 0x00, 0x00, 0x00, 0x00, 0x00, 0x00,
     0x00, 0x00, 0x00, 0x00, 0x00, 0x00, 0x00, 0x00, 0x01, 0x00, 0x00, 0x00, 0x00, 0x00, 0x00, 0x00,
     0x00, 0x00, 0x00, 0x00, 0x00, 0x00, 0x7C, 0x01, 0x00, 0x00, 0x6C, 0x50, 0x4B, 0x01, 0x02, 0x14,
     0x00, 0x14, 0x00, 0x00, 0x00, 0x00, 0x00, 0x00, 0x00, 0x00, 0x00, 0x00, 0x00, 0x00, 0x00, 0x00,
     0x00, 0x00, 0x00, 0x00, 0x00, 0x00, 0x00, 0x01, 0x00, 0x00, 0x00, 0x00, 0x00, 0x00, 0x00, 0x00,
     0x00, 0x00, 0x00, 0x00, 0x00, 0x9B, 0x01, 0x00, 0x00, 0x6D, 0x50, 0x4B, 0x01, 0x02, 0x14, 0x00,
     0x14, 0x00, 0x00, 0x00, 0x00, 0x00, 0x00, 0x00, 0x00, 0x00, 0x00, 0x00, 0x00, 0x00, 0x00, 0x00,
     0x00, 0x00, 0x00, 0x00, 0x00, 0x00, 0x01, 0x00, 0x00, 0x00, 0x00, 0x00, 0x00, 0x00, 0x00, 0x00,
     0x00, 0x00, 0x00, 0x00, 0xBA, 0x01, 0x00, 0x00, 0x6E, 0x50, 0x4B, 0x01, 0x02, 0x14, 0x00, 0x14,
     0x00, 0x00, 0x00, 0x00, 0x00, 0x00, 0x00, 0x00, 0x00, 0x00, 0x00, 0x00, 0x00, 0x00, 0x00, 0x00]"

definition big_bytes7 :: "u8 list" where
  "big_bytes7 =
    [0x00, 0x00, 0x00, 0x00, 0x00, 0x01, 0x00, 0x00, 0x00, 0x00, 0x00, 0x00, 0x00, 0x00, 0x00, 0x00,
     0x00, 0x00, 0x00, 0xD9, 0x01, 0x00, 0x00, 0x6F, 0x50, 0x4B, 0x01, 0x02, 0x14, 0x00, 0x14, 0x00,
     0x00, 0x00, 0x00, 0x00, 0x00, 0x00, 0x00, 0x00, 0x00, 0x00, 0x00, 0x00, 0x00, 0x00, 0x00, 0x00,
     0x00, 0x00, 0x00, 0x00, 0x01, 0x00, 0x00, 0x00, 0x00, 0x00, 0x00, 0x00, 0x00, 0x00, 0x00, 0x00,
     0x00, 0x00, 0xF8, 0x01, 0x00, 0x00, 0x70, 0x50, 0x4B, 0x01, 0x02, 0x14, 0x00, 0x14, 0x00, 0x00,
     0x00, 0x00, 0x00, 0x00, 0x00, 0x00, 0x00, 0x00, 0x00, 0x00, 0x00, 0x00, 0x00, 0x00, 0x00, 0x00,
     0x00, 0x00, 0x00, 0x01, 0x00, 0x00, 0x00, 0x00, 0x00, 0x00, 0x00, 0x00, 0x00, 0x00, 0x00, 0x00,
     0x00, 0x17, 0x02, 0x00, 0x00, 0x71, 0x50, 0x4B, 0x01, 0x02, 0x14, 0x00, 0x14, 0x00, 0x00, 0x00,
     0x00, 0x00, 0x00, 0x00, 0x00, 0x00, 0x00, 0x00, 0x00, 0x00, 0x00, 0x00, 0x00, 0x00, 0x00, 0x00,
     0x00, 0x00, 0x01, 0x00, 0x00, 0x00, 0x00, 0x00, 0x00, 0x00, 0x00, 0x00, 0x00, 0x00, 0x00, 0x00,
     0x36, 0x02, 0x00, 0x00, 0x72, 0x50, 0x4B, 0x01, 0x02, 0x14, 0x00, 0x14, 0x00, 0x00, 0x00, 0x00,
     0x00, 0x00, 0x00, 0x00, 0x00, 0x00, 0x00, 0x00, 0x00, 0x00, 0x00, 0x00, 0x00, 0x00, 0x00, 0x00,
     0x00, 0x01, 0x00, 0x00, 0x00, 0x00, 0x00, 0x00, 0x00, 0x00, 0x00, 0x00, 0x00, 0x00, 0x00, 0x55,
     0x02, 0x00, 0x00, 0x73, 0x50, 0x4B, 0x01, 0x02, 0x14, 0x00, 0x14, 0x00, 0x00, 0x00, 0x00, 0x00,
     0x00, 0x00, 0x00, 0x00, 0x00, 0x00, 0x00, 0x00, 0x00, 0x00, 0x00, 0x00, 0x00, 0x00, 0x00, 0x00,
     0x01, 0x00, 0x00, 0x00, 0x00, 0x00, 0x00, 0x00, 0x00, 0x00, 0x00, 0x00, 0x00, 0x00, 0x74, 0x02]"

definition big_bytes8 :: "u8 list" where
  "big_bytes8 =
    [0x00, 0x00, 0x74, 0x50, 0x4B, 0x01, 0x02, 0x14, 0x00, 0x14, 0x00, 0x00, 0x00, 0x00, 0x00, 0x00,
     0x00, 0x00, 0x00, 0x00, 0x00, 0x00, 0x00, 0x00, 0x00, 0x00, 0x00, 0x00, 0x00, 0x00, 0x00, 0x01,
     0x00, 0x00, 0x00, 0x00, 0x00, 0x00, 0x00, 0x00, 0x00, 0x00, 0x00, 0x00, 0x00, 0x93, 0x02, 0x00,
     0x00, 0x75, 0x50, 0x4B, 0x01, 0x02, 0x14, 0x00, 0x14, 0x00, 0x00, 0x00, 0x00, 0x00, 0x00, 0x00,
     0x00, 0x00, 0x00, 0x00, 0x00, 0x00, 0x00, 0x00, 0x00, 0x00, 0x00, 0x00, 0x00, 0x00, 0x01, 0x00,
     0x00, 0x00, 0x00, 0x00, 0x00, 0x00, 0x00, 0x00, 0x00, 0x00, 0x00, 0x00, 0xB2, 0x02, 0x00, 0x00,
     0x76, 0x50, 0x4B, 0x01, 0x02, 0x14, 0x00, 0x14, 0x00, 0x00, 0x00, 0x00, 0x00, 0x00, 0x00, 0x00,
     0x00, 0x00, 0x00, 0x00, 0x00, 0x00, 0x00, 0x00, 0x00, 0x00, 0x00, 0x00, 0x00, 0x01, 0x00, 0x00,
     0x00, 0x00, 0x00, 0x00, 0x00, 0x00, 0x00, 0x00, 0x00, 0x00, 0x00, 0xD1, 0x02, 0x00, 0x00, 0x77,
     0x50, 0x4B, 0x01, 0x02, 0x14, 0x00, 0x14, 0x00, 0x00, 0x00, 0x00, 0x00, 0x00, 0x00, 0x00, 0x00,
     0x00, 0x00, 0x00, 0x00, 0x00, 0x00, 0x00, 0x00, 0x00, 0x00, 0x00, 0x00, 0x01, 0x00, 0x00, 0x00,
     0x00, 0x00, 0x00, 0x00, 0x00, 0x00, 0x00, 0x00, 0x00, 0x00, 0xF0, 0x02, 0x00, 0x00, 0x78, 0x50,
     0x4B, 0x01, 0x02, 0x14, 0x00, 0x14, 0x00, 0x00, 0x00, 0x00, 0x00, 0x00, 0x00, 0x00, 0x00, 0x00,
     0x00, 0x00, 0x00, 0x00, 0x00, 0x00, 0x00, 0x00, 0x00, 0x00, 0x00, 0x01, 0x00, 0x00, 0x00, 0x00,
     0x00, 0x00, 0x00, 0x00, 0x00, 0x00, 0x00, 0x00, 0x00, 0x0F, 0x03, 0x00, 0x00, 0x79, 0x50, 0x4B,
     0x01, 0x02, 0x14, 0x00, 0x14, 0x00, 0x00, 0x00, 0x00, 0x00, 0x00, 0x00, 0x00, 0x00, 0x00, 0x00]"

definition big_bytes9 :: "u8 list" where
  "big_bytes9 =
    [0x00, 0x00, 0x00, 0x00, 0x00, 0x00, 0x00, 0x00, 0x00, 0x00, 0x01, 0x00, 0x00, 0x00, 0x00, 0x00,
     0x00, 0x00, 0x00, 0x00, 0x00, 0x00, 0x00, 0x00, 0x2E, 0x03, 0x00, 0x00, 0x7A, 0x50, 0x4B, 0x01,
     0x02, 0x14, 0x00, 0x14, 0x00, 0x00, 0x00, 0x00, 0x00, 0x00, 0x00, 0x00, 0x00, 0x00, 0x00, 0x00,
     0x00, 0x00, 0x00, 0x00, 0x00, 0x00, 0x00, 0x00, 0x00, 0x01, 0x00, 0x00, 0x00, 0x00, 0x00, 0x00,
     0x00, 0x00, 0x00, 0x00, 0x00, 0x00, 0x00, 0x4D, 0x03, 0x00, 0x00, 0x30, 0x50, 0x4B, 0x01, 0x02,
     0x14, 0x00, 0x14, 0x00, 0x00, 0x00, 0x00, 0x00, 0x00, 0x00, 0x00, 0x00, 0x00, 0x00, 0x00, 0x00,
     0x00, 0x00, 0x00, 0x00, 0x00, 0x00, 0x00, 0x00, 0x01, 0x00, 0x00, 0x00, 0x00, 0x00, 0x00, 0x00,
     0x00, 0x00, 0x00, 0x00, 0x00, 0x00, 0x6C, 0x03, 0x00, 0x00, 0x31, 0x50, 0x4B, 0x01, 0x02, 0x14,
     0x00, 0x14, 0x00, 0x00, 0x00, 0x00, 0x00, 0x00, 0x00, 0x00, 0x00, 0x00, 0x00, 0x00, 0x00, 0x00,
     0x00, 0x00, 0x00, 0x00, 0x00, 0x00, 0x00, 0x01, 0x00, 0x00, 0x00, 0x00, 0x00, 0x00, 0x00, 0x00,
     0x00, 0x00, 0x00, 0x00, 0x00, 0x8B, 0x03, 0x00, 0x00, 0x32, 0x50, 0x4B, 0x01, 0x02, 0x14, 0x00,
     0x14, 0x00, 0x00, 0x00, 0x00, 0x00, 0x00, 0x00, 0x00, 0x00, 0x00, 0x00, 0x00, 0x00, 0x00, 0x00,
     0x00, 0x00, 0x00, 0x00, 0x00, 0x00, 0x01, 0x00, 0x00, 0x00, 0x00, 0x00, 0x00, 0x00, 0x00, 0x00,
     0x00, 0x00, 0x00, 0x00, 0xAA, 0x03, 0x00, 0x00, 0x33, 0x50, 0x4B, 0x01, 0x02, 0x14, 0x00, 0x14,
     0x00, 0x00, 0x00, 0x00, 0x00, 0x00, 0x00, 0x00, 0x00, 0x00, 0x00, 0x00, 0x00, 0x00, 0x00, 0x00,
     0x00, 0x00, 0x00, 0x00, 0x00, 0x01, 0x00, 0x00, 0x00, 0x00, 0x00, 0x00, 0x00, 0x00, 0x00, 0x00]"

definition big_bytes10 :: "u8 list" where
  "big_bytes10 =
    [0x00, 0x00, 0x00, 0xC9, 0x03, 0x00, 0x00, 0x34, 0x50, 0x4B, 0x01, 0x02, 0x14, 0x00, 0x14, 0x00,
     0x00, 0x00, 0x00, 0x00, 0x00, 0x00, 0x00, 0x00, 0x00, 0x00, 0x00, 0x00, 0x00, 0x00, 0x00, 0x00,
     0x00, 0x00, 0x00, 0x00, 0x01, 0x00, 0x00, 0x00, 0x00, 0x00, 0x00, 0x00, 0x00, 0x00, 0x00, 0x00,
     0x00, 0x00, 0xE8, 0x03, 0x00, 0x00, 0x35, 0x50, 0x4B, 0x01, 0x02, 0x14, 0x00, 0x14, 0x00, 0x00,
     0x00, 0x00, 0x00, 0x00, 0x00, 0x00, 0x00, 0x00, 0x00, 0x00, 0x00, 0x00, 0x00, 0x00, 0x00, 0x00,
     0x00, 0x00, 0x00, 0x01, 0x00, 0x00, 0x00, 0x00, 0x00, 0x00, 0x00, 0x00, 0x00, 0x00, 0x00, 0x00,
     0x00, 0x07, 0x04, 0x00, 0x00, 0x36, 0x50, 0x4B, 0x05, 0x06, 0x00, 0x00, 0x00, 0x00, 0x22, 0x00,
     0x22, 0x00, 0x40, 0x06, 0x00, 0x00, 0x26, 0x04, 0x00, 0x00, 0x00, 0x00]"

definition big_pieces :: "u8 list list" where
  "big_pieces =
     [big_bytes0, big_bytes1, big_bytes2, big_bytes3, big_bytes4, big_bytes5, big_bytes6,
      big_bytes7, big_bytes8, big_bytes9, big_bytes10]"

definition big_archive :: "u8 list" where
  "big_archive = concat big_pieces"

definition big_memory :: memory where
  "big_memory a =
     (if 8192 \<le> a \<and> a < 8192 + 2684
      then big_pieces ! nat ((a - 8192) div 256) ! nat ((a - 8192) mod 256) else 0)"

definition big_mapped :: "addr \<Rightarrow> bool" where
  "big_mapped a = (8192 \<le> a \<and> a < 8192 + 2684)"

definition big_region :: span where
  "big_region = \<lparr>span_start = 8192, span_length = 2684\<rparr>"

text \<open>The pointers to its central headers, in the order of the central directory.\<close>

definition big_entries :: "addr list" where
  "big_entries =
     [9254, 9301, 9348, 9395, 9442, 9489, 9536, 9583, 9632, 9679, 9726, 9773, 9820, 9867,
      9914, 9961, 10008, 10055, 10102, 10149, 10196, 10243, 10290, 10337, 10384, 10431,
      10478, 10525, 10572, 10619, 10666, 10713, 10760, 10807]"

text \<open>The index that \<^verbatim>\<open>open\<close> builds from it.\<close>

definition big_index :: jar_index where
  "big_index = the (JarIndex_open example_hash big_memory big_region)"

text \<open>The System of the example with this archive as the file \<^verbatim>\<open>big.jar\<close>.\<close>

definition big_env :: env where
  "big_env = example_env
     \<lparr>env_memory := big_memory, env_mapped := big_mapped,
      env_map := (\<lambda>p. if p = bytes ''big.jar'' then Some big_region else None)\<rparr>"

subsection \<open>Elements of the example\<close>

text \<open>The elements of the example: the directory \<^verbatim>\<open>cp\<close>, the archive \<^verbatim>\<open>a.jar\<close> before and
  after \<^verbatim>\<open>init\<close>, and the archive that the boot library exports as \<^verbatim>\<open>boot\<close>.\<close>

definition example_cp :: element where
  "example_cp = DirectoryElement (bytes ''cp'')"

definition example_jar :: element where
  "example_jar = JarElement (bytes ''a.jar'') None None"

definition example_jar_loaded :: element where
  "example_jar_loaded = JarElement (bytes ''a.jar'') (Some example_region) (Some example_index)"

text \<open>The element of the archive with 34 entries, before and after \<^verbatim>\<open>init\<close>.\<close>

definition big_jar :: element where
  "big_jar = JarElement (bytes ''big.jar'') None None"

definition big_jar_loaded :: element where
  "big_jar_loaded = JarElement (bytes ''big.jar'') (Some big_region) (Some big_index)"

text \<open>An archive-backed element, and what \<^verbatim>\<open>init\<close> keeps true of its fields: the region is
  set whenever the index is.\<close>

fun archive_backed :: "element \<Rightarrow> bool" where
  "archive_backed (DirectoryElement name) = False"
| "archive_backed (JarElement name region index) = True"
| "archive_backed (BuiltinElement name libraryName region index) = True"

definition region_with_index :: "element \<Rightarrow> bool" where
  "region_with_index e = (element_index e = None \<or> element_region e \<noteq> None)"

text \<open>The System of the example over the changed archive.\<close>

definition damaged_env :: env where
  "damaged_env = example_env\<lparr>env_memory := damaged_memory\<rparr>"

subsection \<open>The order of an enumeration\<close>

text \<open>
  The order in which a directory is to be listed: depth first, each name before the
  names below it. \<^verbatim>\<open>listing s skip name vs xs\<close>: listing the names \<^verbatim>\<open>vs\<close> of the directory
  \<^verbatim>\<open>name\<close> gives the paths \<^verbatim>\<open>xs\<close>, each without its first \<^verbatim>\<open>skip\<close> bytes. A name that begins
  with a dot is passed over; a name that is a directory is followed by the listing of
  that directory.
\<close>

inductive listing :: "env \<Rightarrow> nat \<Rightarrow> cstring \<Rightarrow> cstring list \<Rightarrow> cstring list \<Rightarrow> bool"
  for s :: env and skip :: nat where
  empty: "listing s skip name [] []"
| hidden: "dotted v \<Longrightarrow> listing s skip name vs xs \<Longrightarrow> listing s skip name (v # vs) xs"
| plain: "\<not> dotted v \<Longrightarrow> env_identify s (append_path name v) \<noteq> TypeDirectory \<Longrightarrow>
     listing s skip name vs xs \<Longrightarrow>
     listing s skip name (v # vs) (drop skip (append_path name v) # xs)"
| descent: "\<not> dotted v \<Longrightarrow> env_identify s (append_path name v) = TypeDirectory \<Longrightarrow>
     env_open s (append_path name v) = Some ws \<Longrightarrow>
     listing s skip (append_path name v) ws ys \<Longrightarrow>
     listing s skip name vs xs \<Longrightarrow>
     listing s skip name (v # vs) (drop skip (append_path name v) # ys @ xs)"

text \<open>The components of a path: the parts between its \<^verbatim>\<open>/\<close>.\<close>

fun components :: "cstring \<Rightarrow> cstring list" where
  "components [] = [[]]"
| "components (c # cs) =
     (if c = slash then [] # components cs
      else (case components cs of [] \<Rightarrow> [[c]] | x # xs \<Rightarrow> (c # x) # xs))"

text \<open>
  The enumeration of an element by itself: \<^verbatim>\<open>iterator()\<close>, \<^verbatim>\<open>next\<close> until it returns null, and
  \<^verbatim>\<open>dispose\<close>. Its natural order: for a directory the listing above, from the names that
  \<^verbatim>\<open>open\<close> gives, with the name of the element and the \<^verbatim>\<open>/\<close> after it skipped; for an archive
  the names of the nodes of its index, in the order of insertion.
\<close>

definition enumerates :: "env \<Rightarrow> element \<Rightarrow> cstring list \<Rightarrow> bool" where
  "enumerates s e ys =
     (\<exists>it e' it'. Element_iterator s e = Inr (it, e') \<and> yields (Iterator_next s) it ys it' \<and>
        Iterator_dispose it' = Inr ())"

fun natural :: "env \<Rightarrow> element \<Rightarrow> cstring list \<Rightarrow> bool" where
  "natural s (DirectoryElement name) ys =
     (\<exists>vs. env_open s name = Some vs \<and> listing s (length name + 1) name vs ys)"
| "natural s e ys =
     (\<exists>e' ix. init s e = Inr e' \<and> element_index e' = Some ix \<and>
        ys = map (\<lambda>n. entryName (env_memory s) (entry n)) (nodes ix))"

definition index_sound :: "element \<Rightarrow> bool" where
  "index_sound e = (\<forall>ix. element_index e = Some ix \<longrightarrow> index_inv ix)"

section \<open>The invariant of the hash table\<close>

lemma unat_pow2: "k < 32 \<Longrightarrow> unat ((2::u32) ^ k) = 2 ^ k"
proof -
  assume k: "k < 32"
  have "(2::nat) ^ k < 2 ^ 32" using k by (rule power_strict_increasing) simp
  moreover have "(2::u32) ^ k = of_nat (2 ^ k)" by simp
  moreover have "unat (of_nat (2 ^ k) :: u32) = 2 ^ k mod 2 ^ 32"
    unfolding unat_of_nat by simp
  ultimately show ?thesis by (simp only: mod_less)
qed

lemma bucket_less: "k < 32 \<Longrightarrow> unat ((h::u32) AND (2 ^ k - 1)) < 2 ^ k"
proof -
  assume k: "k < 32"
  have "h AND mask k < 2 ^ k" using k by (simp add: and_mask_less')
  then show ?thesis using k
    by (simp add: word_less_nat_alt mask_eq_decr_exp unat_pow2)
qed

lemma bucket_in_range:
  assumes "index_inv ix" shows "bucket (capacity ix) n < unat (capacity ix)"
proof -
  from assms obtain k where k: "k < 32" "capacity ix = 2 ^ k"
    by (auto simp: index_inv_def)
  then show ?thesis by (simp add: bucket_def unat_pow2 bucket_less)
qed

lemma make_inv: "k < 32 \<Longrightarrow> index_inv (JarIndex_make (2 ^ k))"
  by (auto simp: index_inv_def JarIndex_make_def)

lemma position_less:
  assumes "index_inv ix"
  shows "(position ix < capacity ix) = (length (nodes ix) < unat (capacity ix))"
proof -
  from assms have "unat (of_nat (length (nodes ix)) :: u32) = length (nodes ix)"
    by (auto simp: index_inv_def intro: le_unat_uoi)
  then show ?thesis using assms by (simp add: index_inv_def word_less_nat_alt)
qed

lemma link_inv:
  assumes inv: "index_inv ix" and lt: "position ix < capacity ix"
  shows "index_inv (link ix h e)"
proof -
  let ?n = "\<lparr>hash = h, entry = e\<rparr>"
  let ?i = "unat (h AND (capacity ix - 1))"
  have i: "?i < unat (capacity ix)"
    using bucket_in_range [OF inv, of ?n] by (simp add: bucket_def)
  have len: "length (nodes ix) < unat (capacity ix)"
    using inv lt by (simp add: position_less)
  have tab: "\<forall>j < unat (capacity ix).
      (table ix)[?i := ?n # table ix ! ?i] ! j =
      rev (filter (\<lambda>n. bucket (capacity ix) n = j) (nodes ix @ [?n]))"
  proof (intro allI impI)
    fix j assume j: "j < unat (capacity ix)"
    then have old: "table ix ! j = rev (filter (\<lambda>n. bucket (capacity ix) n = j) (nodes ix))"
      using inv by (simp add: index_inv_def)
    show "(table ix)[?i := ?n # table ix ! ?i] ! j =
      rev (filter (\<lambda>n. bucket (capacity ix) n = j) (nodes ix @ [?n]))"
    proof (cases "j = ?i")
      case True
      then show ?thesis using old i inv by (simp add: index_inv_def bucket_def)
    next
      case False
      then show ?thesis using old by (simp add: bucket_def)
    qed
  qed
  show ?thesis
    using inv len tab by (simp add: index_inv_def link_def Let_def)
qed

lemma link_fields:
  "nodes (link ix h e) = nodes ix @ [\<lparr>hash = h, entry = e\<rparr>]"
  "capacity (link ix h e) = capacity ix"
  by (simp_all add: link_def Let_def)

lemma node_eta: "\<lparr>hash = hash n, entry = entry n\<rparr> = (n::node)"
  by (cases n) simp

lemma double_cap:
  assumes "k < 32" "c = (2::u32) ^ k" "Suc k < 32"
  shows "unat (c * 2) = 2 * unat c"
proof -
  have "c * 2 = 2 ^ Suc k" using assms by simp
  then have "unat (c * 2) = 2 ^ Suc k" using assms(3) by (simp only: unat_pow2)
  moreover have "unat c = 2 ^ k" using assms by (simp only: unat_pow2)
  ultimately show ?thesis by simp
qed

lemma add_each_Some:
  assumes "index_inv ix" "length (nodes ix) + length ns \<le> unat (capacity ix)"
  shows "\<exists>ix'. add_each ix ns = Some ix' \<and> index_inv ix' \<and> nodes ix' = nodes ix @ ns
     \<and> capacity ix' = capacity ix"
  using assms
proof (induction ns arbitrary: ix)
  case Nil
  then show ?case by simp
next
  case (Cons n ns)
  have lt: "position ix < capacity ix"
    using Cons.prems by (simp add: position_less)
  have inv': "index_inv (link ix (hash n) (entry n))"
    using Cons.prems(1) lt by (rule link_inv)
  have "length (nodes (link ix (hash n) (entry n))) + length ns \<le> unat (capacity (link ix (hash n) (entry n)))"
    using Cons.prems(2) by (simp add: link_fields)
  from Cons.IH [OF inv' this] show ?case
    using lt by (simp add: add_inner_def link_fields node_eta)
qed

lemma add_inv:
  assumes inv: "index_inv ix" and add: "add ix h e = Some ix'"
  shows "index_inv ix' \<and> nodes ix' = nodes ix @ [\<lparr>hash = h, entry = e\<rparr>]"
proof (cases "position ix < capacity ix")
  case True
  then show ?thesis using inv add by (auto simp: add_def link_inv link_fields)
next
  case False
  from inv obtain k where k: "k < 32" "capacity ix = 2 ^ k"
    by (auto simp: index_inv_def)
  have full: "length (nodes ix) = unat (capacity ix)"
    using inv False position_less [OF inv] by (simp add: index_inv_def)
  show ?thesis
  proof (cases "k = 31")
    case True
    then have "capacity ix * 2 = 0" using k by simp
    moreover have "nodes ix \<noteq> []" using full k by (auto simp: unat_pow2)
    ultimately have "add ix h e = None"
      using False full
      by (cases "nodes ix") (simp_all add: add_def add_inner_def JarIndex_make_def)
    then show ?thesis using add by simp
  next
    case k31: False
    then have k': "Suc k < 32" using k by simp
    have dbl: "capacity ix * 2 = 2 ^ Suc k" using k by simp
    have inv0: "index_inv (JarIndex_make (capacity ix * 2))"
      unfolding dbl using k' by (rule make_inv)
    have cap2: "unat (capacity ix * 2) = 2 * unat (capacity ix)"
      using k k' by (rule double_cap)
    have "length (nodes (JarIndex_make (capacity ix * 2))) + length (take (unat (capacity ix)) (nodes ix))
        \<le> unat (capacity (JarIndex_make (capacity ix * 2)))"
      using full cap2 by (simp add: JarIndex_make_def)
    from add_each_Some [OF inv0 this] obtain index where
      index: "add_each (JarIndex_make (capacity ix * 2)) (take (unat (capacity ix)) (nodes ix)) = Some index"
        "index_inv index" "nodes index = nodes ix" "capacity index = capacity ix * 2"
      using full by (auto simp: JarIndex_make_def)
    have "0 < unat (capacity ix)" using k by (simp add: unat_pow2)
    then have lt: "position index < capacity index"
      using position_less [OF index(2)] index full cap2 by simp
    then have "ix' = link index h e"
      using add False index by (simp add: add_def add_inner_def)
    then show ?thesis using index lt by (simp add: link_inv link_fields)
  qed
qed

lemma add_returns:
  assumes inv: "index_inv ix" and ok: "position ix < capacity ix \<or> capacity ix < 2 ^ 31"
  shows "\<exists>ix'. add ix h e = Some ix'"
proof (cases "position ix < capacity ix")
  case True
  then show ?thesis by (simp add: add_def)
next
  case False
  from inv obtain k where k: "k < 32" "capacity ix = 2 ^ k"
    by (auto simp: index_inv_def)
  have full: "length (nodes ix) = unat (capacity ix)"
    using inv False position_less [OF inv] by (simp add: index_inv_def)
  have "capacity ix < 2 ^ 31" using ok False by simp
  then have "unat (capacity ix) < unat ((2::u32) ^ 31)" by (simp only: word_less_nat_alt)
  then have "(2::nat) ^ k < 2 ^ 31" using k by (simp only: unat_pow2 [of 31] unat_pow2 [of k])
  then have "k < 31" using power_less_imp_less_exp [of 2 k 31] by simp
  then have k': "Suc k < 32" by simp
  have dbl: "capacity ix * 2 = 2 ^ Suc k" using k by simp
  have inv0: "index_inv (JarIndex_make (capacity ix * 2))"
    unfolding dbl using k' by (rule make_inv)
  have cap2: "unat (capacity ix * 2) = 2 * unat (capacity ix)"
    using k k' by (rule double_cap)
  have "length (nodes (JarIndex_make (capacity ix * 2))) + length (take (unat (capacity ix)) (nodes ix))
      \<le> unat (capacity (JarIndex_make (capacity ix * 2)))"
    using full cap2 by (simp add: JarIndex_make_def)
  from add_each_Some [OF inv0 this] obtain index where
    index: "add_each (JarIndex_make (capacity ix * 2)) (take (unat (capacity ix)) (nodes ix)) = Some index"
      "index_inv index" "nodes index = nodes ix" "capacity index = capacity ix * 2"
    using full by (auto simp: JarIndex_make_def)
  have "0 < unat (capacity ix)" using k by (simp add: unat_pow2)
  then have lt: "position index < capacity index"
    using position_less [OF index(2)] index full cap2 by simp
  then show ?thesis using False index by (simp add: add_def add_inner_def)
qed

lemma find_filter: "List.find P (filter Q xs) = List.find (\<lambda>x. Q x \<and> P x) xs"
  by (induction xs) auto

lemma findNode_bucket:
  assumes "index_inv ix"
  shows "findNode hashN m ix name =
    List.find (\<lambda>n. bucket (capacity ix) n = unat (hashN name AND (capacity ix - 1)) \<and> matches m name n)
      (rev (nodes ix))"
proof -
  let ?i = "unat (hashN name AND (capacity ix - 1))"
  have "?i < unat (capacity ix)"
    using bucket_in_range [OF assms, of "\<lparr>hash = hashN name, entry = 0\<rparr>"] by (simp add: bucket_def)
  then have "table ix ! ?i = rev (filter (\<lambda>n. bucket (capacity ix) n = ?i) (nodes ix))"
    using assms by (simp add: index_inv_def)
  then show ?thesis
    by (simp add: findNode_def find_filter rev_filter)
qed

lemma matches_name: "matches m name n \<longleftrightarrow> entryName m (entry n) = name"
  by (auto simp: matches_def equal_bytes_def entryName_def mem_read_def)

lemma built_inv: "built hashB m ix \<Longrightarrow> index_inv ix \<and> hashed hashB m ix"
proof (induction rule: built.induct)
  case fresh
  have "index_inv (JarIndex_make (2 ^ 5))" by (rule make_inv) simp
  then show ?case by (simp add: hashed_def JarIndex_make_def)
next
  case (added ix p ix')
  then show ?case using add_inv [of ix "hashB (entryName m p)" p ix']
    by (auto simp: hashed_def)
qed

lemma walk_built:
  "walk hashB m endp index p = Some w \<Longrightarrow> built hashB m index \<Longrightarrow>
     (case w of Returned ix \<Rightarrow> built hashB m ix | Passed q ix \<Rightarrow> built hashB m ix)"
proof (induction hashB m endp index p rule: walk.induct)
  case (1 hashB m endp index p)
  note w = "1.prems"(1) [unfolded walk.simps [of hashB m endp index p]]
  show ?case
  proof (cases "p < endp")
    case False
    then show ?thesis using w "1.prems"(2) by auto
  next
    case True
    show ?thesis
    proof (cases "signature m p = 0x02014b50")
      case False
      then show ?thesis using w True "1.prems"(2) by auto
    next
      case sig: True
      then obtain index' where a: "add index (hashB (entryName m p)) p = Some index'"
        and w': "walk hashB m endp index' (endOfEntry m p) = Some w"
        using w True by (auto simp: entryName_def split: option.splits)
      have "built hashB m index'" using "1.prems"(2) a by (rule built.added)
      with "1.IH" [of index'] True sig a w' show ?thesis by (simp add: entryName_def)
    qed
  qed
qed

lemma scan_built:
  assumes s: "scan hashB m start endp index p = Some ix" and b: "built hashB m index"
  shows "built hashB m ix"
proof -
  have "built hashB m index \<longrightarrow> built hashB m ix"
  proof (rule scan.raw_induct [where P = "\<lambda>hashB m start endp index p ix.
        built hashB m index \<longrightarrow> built hashB m ix", OF _ s], goal_cases)
    case (1 scan' hashB m start endp index p ix)
    note IH = "1"(1) and body = "1"(2)
    show ?case
    proof
      assume bi: "built hashB m index"
      show "built hashB m ix"
      proof (cases "p > start")
        case False
        then have "ix = index" using body by simp
        then show ?thesis using bi by simp
      next
        case True
        show ?thesis
        proof (cases "signature m p = 0x06054b50")
          case False
          then have "scan' hashB m start endp index (p - 1) = Some ix"
            using body True by simp
          from IH [OF this] bi show ?thesis by simp
        next
          case sig: True
          then obtain w where w: "walk hashB m endp index (start + uint (centralDirectoryOffset m p)) = Some w"
            using body True by (auto split: option.splits)
          show ?thesis
          proof (cases w)
            case (Returned index')
            then have "ix = index'" using body True sig w by simp
            then show ?thesis using walk_built [OF w bi] Returned by simp
          next
            case (Passed p' index')
            then have "scan' hashB m start endp index' p' = Some ix"
              using body True sig w by simp
            from IH [OF this] walk_built [OF w bi] Passed show ?thesis by simp
          qed
        qed
      qed
    qed
  qed
  then show ?thesis using b by simp
qed

lemma open_built: "JarIndex_open hashB m r = Some ix \<Longrightarrow> built hashB m ix"
  by (auto simp: JarIndex_open_def Let_def intro: scan_built built.fresh)

subsection \<open>Sequences of calls of add\<close>

lemma add_capacity:
  assumes inv: "index_inv ix" and add: "add ix h e = Some ix'"
  shows "capacity ix' = (if position ix < capacity ix then capacity ix else capacity ix * 2)"
proof (cases "position ix < capacity ix")
  case True
  then show ?thesis using add by (auto simp: add_def link_fields)
next
  case False
  from inv obtain k where k: "k < 32" "capacity ix = 2 ^ k"
    by (auto simp: index_inv_def)
  have full: "length (nodes ix) = unat (capacity ix)"
    using inv False position_less [OF inv] by (simp add: index_inv_def)
  obtain index where
    index: "add_each (JarIndex_make (capacity ix * 2)) (take (unat (capacity ix)) (nodes ix)) = Some index"
    and a: "add_inner index h e = Some ix'"
    using add False by (auto simp: add_def split: option.splits)
  have c: "\<And>ns i i'. add_each i ns = Some i' \<Longrightarrow> capacity i' = capacity i"
  proof -
    fix ns i i'
    show "add_each i ns = Some i' \<Longrightarrow> capacity i' = capacity i"
      by (induction ns arbitrary: i)
        (auto simp: add_inner_def link_fields split: option.splits if_splits)
  qed
  have "capacity index = capacity ix * 2" using c [OF index] by (simp add: JarIndex_make_def)
  moreover have "capacity ix' = capacity index"
    using a by (auto simp: add_inner_def link_fields split: if_splits)
  ultimately show ?thesis using False by simp
qed

lemma add_grown:
  assumes inv: "index_inv ix" and add: "add ix h e = Some ix'"
    and g: "\<exists>k. k0 \<le> k \<and> k < 32 \<and> capacity ix = 2 ^ k \<and> (k0 < k \<longrightarrow> 2 ^ (k - 1) < length (nodes ix))"
  shows "\<exists>k. k0 \<le> k \<and> k < 32 \<and> capacity ix' = 2 ^ k \<and> (k0 < k \<longrightarrow> 2 ^ (k - 1) < length (nodes ix'))"
proof -
  from g obtain k where k: "k0 \<le> k" "k < 32" "capacity ix = 2 ^ k"
    "k0 < k \<longrightarrow> 2 ^ (k - 1) < length (nodes ix)" by blast
  have n': "nodes ix' = nodes ix @ [\<lparr>hash = h, entry = e\<rparr>]" and inv': "index_inv ix'"
    using add_inv [OF inv add] by simp_all
  show ?thesis
  proof (cases "position ix < capacity ix")
    case True
    then have "capacity ix' = 2 ^ k" using add_capacity [OF inv add] k by simp
    moreover have "k0 < k \<longrightarrow> 2 ^ (k - 1) < length (nodes ix')" using k(4) n' by auto
    ultimately show ?thesis using k by blast
  next
    case False
    have full: "length (nodes ix) = 2 ^ k"
      using inv False position_less [OF inv] k by (simp add: index_inv_def unat_pow2)
    have k31: "k \<noteq> 31"
    proof
      assume "k = 31"
      then have "capacity ix * 2 = 0" using k by simp
      moreover have "nodes ix \<noteq> []" using full by auto
      ultimately have "add ix h e = None"
        using False full k
        by (cases "nodes ix") (simp_all add: add_def add_inner_def JarIndex_make_def unat_pow2)
      then show False using add by simp
    qed
    have "capacity ix' = 2 ^ Suc k" using add_capacity [OF inv add] False k by simp
    moreover have "Suc k < 32" using k k31 by simp
    moreover have "2 ^ (Suc k - 1) < length (nodes ix')" using full n' by simp
    ultimately show ?thesis using k(1) by (intro exI [of _ "Suc k"]) simp
  qed
qed

lemma add_all_inv:
  assumes "index_inv ix"
    and "\<exists>k. k0 \<le> k \<and> k < 32 \<and> capacity ix = 2 ^ k \<and> (k0 < k \<longrightarrow> 2 ^ (k - 1) < length (nodes ix))"
    and "add_all ix ns = Some ix'"
  shows "index_inv ix' \<and> nodes ix' = nodes ix @ ns \<and>
    (\<exists>k. k0 \<le> k \<and> k < 32 \<and> capacity ix' = 2 ^ k \<and> (k0 < k \<longrightarrow> 2 ^ (k - 1) < length (nodes ix')))"
  using assms
proof (induction ns arbitrary: ix)
  case Nil
  then show ?case by simp
next
  case (Cons n ns)
  from Cons.prems(3) obtain ix1 where a: "add ix (hash n) (entry n) = Some ix1"
    and r: "add_all ix1 ns = Some ix'" by (auto split: option.splits)
  have inv1: "index_inv ix1" and n1: "nodes ix1 = nodes ix @ [n]"
    using add_inv [OF Cons.prems(1) a] by (simp_all add: node_eta)
  have g1: "\<exists>k. k0 \<le> k \<and> k < 32 \<and> capacity ix1 = 2 ^ k \<and> (k0 < k \<longrightarrow> 2 ^ (k - 1) < length (nodes ix1))"
    using Cons.prems(1) a Cons.prems(2) by (rule add_grown)
  from Cons.IH [OF inv1 g1 r] have i': "index_inv ix'" and n': "nodes ix' = nodes ix1 @ ns"
    and g': "\<exists>k. k0 \<le> k \<and> k < 32 \<and> capacity ix' = 2 ^ k \<and> (k0 < k \<longrightarrow> 2 ^ (k - 1) < length (nodes ix'))"
    by blast+
  have "nodes ix' = nodes ix @ n # ns" using n' n1 by simp
  then show ?case using i' g' by blast
qed

lemma add_all_returns:
  assumes "index_inv ix" "length (nodes ix) + length ns \<le> 2 ^ 31"
  shows "\<exists>ix'. add_all ix ns = Some ix'"
  using assms
proof (induction ns arbitrary: ix)
  case Nil
  then show ?case by simp
next
  case (Cons n ns)
  have lt: "length (nodes ix) < 2 ^ 31" using Cons.prems(2) by simp
  have ok: "position ix < capacity ix \<or> capacity ix < 2 ^ 31"
  proof (cases "position ix < capacity ix")
    case True
    then show ?thesis by simp
  next
    case False
    then have "length (nodes ix) = unat (capacity ix)"
      using Cons.prems(1) position_less [OF Cons.prems(1)] by (simp add: index_inv_def)
    then have "unat (capacity ix) < unat ((2::u32) ^ 31)"
      using lt by (simp only: unat_pow2 [of 31])
    then have "capacity ix < 2 ^ 31" by (simp only: word_less_nat_alt)
    then show ?thesis by simp
  qed
  from add_returns [OF Cons.prems(1) ok] obtain ix1
    where a: "add ix (hash n) (entry n) = Some ix1" by blast
  have inv1: "index_inv ix1" and n1: "nodes ix1 = nodes ix @ [n]"
    using add_inv [OF Cons.prems(1) a] by (simp_all add: node_eta)
  have "length (nodes ix1) + length ns \<le> 2 ^ 31" using Cons.prems(2) n1 by simp
  from Cons.IH [OF inv1 this] show ?case using a by simp
qed

lemma add_all_append:
  "add_all ix (xs @ ys) = (case add_all ix xs of None \<Rightarrow> None | Some ix' \<Rightarrow> add_all ix' ys)"
  by (induction xs arbitrary: ix) (auto split: option.splits)

lemma add_all_make:
  assumes k0: "k0 < 32" and a: "add_all (JarIndex_make (2 ^ k0)) ns = Some ix"
  shows "index_inv ix \<and> nodes ix = ns \<and>
    (\<exists>k. k0 \<le> k \<and> k < 32 \<and> capacity ix = 2 ^ k \<and> length ns \<le> 2 ^ k \<and>
         (k0 < k \<longrightarrow> 2 ^ (k - 1) < length ns))"
proof -
  have inv0: "index_inv (JarIndex_make (2 ^ k0))" using k0 by (rule make_inv)
  have g0: "\<exists>k. k0 \<le> k \<and> k < 32 \<and> capacity (JarIndex_make (2 ^ k0)) = 2 ^ k \<and>
      (k0 < k \<longrightarrow> 2 ^ (k - 1) < length (nodes (JarIndex_make (2 ^ k0))))"
    using k0 by (intro exI [of _ k0]) (simp add: JarIndex_make_def)
  note t = add_all_inv [OF inv0 g0 a]
  have inv: "index_inv ix" using t by blast
  have n: "nodes ix = ns" using t by (simp add: JarIndex_make_def)
  have g: "\<exists>k. k0 \<le> k \<and> k < 32 \<and> capacity ix = 2 ^ k \<and> (k0 < k \<longrightarrow> 2 ^ (k - 1) < length (nodes ix))"
    using t by blast
  from g obtain k where k: "k0 \<le> k" "k < 32" "capacity ix = 2 ^ k"
    "k0 < k \<longrightarrow> 2 ^ (k - 1) < length (nodes ix)" by blast
  have "length ns \<le> 2 ^ k" using inv n k by (simp add: index_inv_def unat_pow2)
  moreover have "k0 < k \<longrightarrow> 2 ^ (k - 1) < length ns" using k(4) n by simp
  ultimately show ?thesis using inv n k(1,2,3) by blast
qed

lemma walk_adds:
  "walk hashB m endp index p = Some w \<Longrightarrow>
     \<exists>es. add_all index (map (node_of hashB m) es) =
       Some (case w of Returned ix \<Rightarrow> ix | Passed q ix \<Rightarrow> ix)"
proof (induction hashB m endp index p rule: walk.induct)
  case (1 hashB m endp index p)
  note w = "1.prems"(1) [unfolded walk.simps [of hashB m endp index p]]
  show ?case
  proof (cases "p < endp \<and> signature m p = 0x02014b50")
    case False
    then have "(case w of Returned ix \<Rightarrow> ix | Passed q ix \<Rightarrow> ix) = index"
      using w by (auto split: if_splits)
    then show ?thesis by (intro exI [of _ "[]"]) simp
  next
    case True
    then obtain index' where a: "add index (hashB (entryName m p)) p = Some index'"
      and w': "walk hashB m endp index' (endOfEntry m p) = Some w"
      using w by (auto simp: entryName_def split: option.splits)
    from "1.IH" [of index'] True a w' obtain es where
      es: "add_all index' (map (node_of hashB m) es) =
         Some (case w of Returned ix \<Rightarrow> ix | Passed q ix \<Rightarrow> ix)"
      by (auto simp: entryName_def)
    have h: "hash (node_of hashB m p) = hashB (entryName m p)" "entry (node_of hashB m p) = p"
      by (simp_all add: node_of_def)
    show ?thesis using a es by (intro exI [of _ "p # es"]) (simp add: h)
  qed
qed

lemma scan_adds:
  assumes s: "scan hashB m start endp index p = Some ix"
  shows "\<exists>es. add_all index (map (node_of hashB m) es) = Some ix"
proof (rule scan.raw_induct [where P = "\<lambda>hashB m start endp index p ix.
      \<exists>es. add_all index (map (node_of hashB m) es) = Some ix", OF _ s], goal_cases)
  case (1 scan' hashB m start endp index p ix)
  note IH = "1"(1) and body = "1"(2)
  show ?case
  proof (cases "p > start")
    case False
    then have "ix = index" using body by simp
    then show ?thesis by (intro exI [of _ "[]"]) simp
  next
    case True
    show ?thesis
    proof (cases "signature m p = 0x06054b50")
      case False
      then have "scan' hashB m start endp index (p - 1) = Some ix"
        using body True by simp
      from IH [OF this] show ?thesis .
    next
      case sig: True
      then obtain w where w: "walk hashB m endp index (start + uint (centralDirectoryOffset m p)) = Some w"
        using body True by (auto split: option.splits)
      from walk_adds [OF w] obtain es where
        es: "add_all index (map (node_of hashB m) es) =
           Some (case w of Returned ix \<Rightarrow> ix | Passed q ix \<Rightarrow> ix)" by blast
      show ?thesis
      proof (cases w)
        case (Returned index')
        then have "ix = index'" using body True sig w by simp
        then show ?thesis using es Returned by auto
      next
        case (Passed p' index')
        then have "scan' hashB m start endp index' p' = Some ix"
          using body True sig w by simp
        from IH [OF this] obtain es' where
          es': "add_all index' (map (node_of hashB m) es') = Some ix" by blast
        have "add_all index (map (node_of hashB m) (es @ es')) = Some ix"
          using es es' Passed by (simp add: add_all_append)
        then show ?thesis by blast
      qed
    qed
  qed
qed

lemma open_adds:
  "JarIndex_open hashB m r = Some ix \<Longrightarrow>
     \<exists>es. add_all (JarIndex_make 32) (map (node_of hashB m) es) = Some ix"
  by (auto simp: JarIndex_open_def Let_def intro: scan_adds)

section \<open>An archive to run the code on\<close>

lemma length_example_archive: "length example_archive = 267"
  by (simp add: example_archive_def)

lemma mem_read_0: "mem_read m a 0 = []"
  by (simp add: mem_read_def)

lemma mem_read_Suc: "mem_read m a (Suc n) = m a # mem_read m (a + 1) n"
proof -
  have "[0..<Suc n] = 0 # map Suc [0..<n]"
    by (simp add: upt_conv_Cons map_Suc_upt del: upt_Suc)
  then show ?thesis by (simp add: mem_read_def o_def add.assoc del: upt_Suc)
qed

lemma mem_read_numeral:
  "mem_read m a (numeral k) = m a # mem_read m (a + 1) (pred_numeral k)"
  by (simp add: numeral_eq_Suc mem_read_Suc)

lemmas field_defs = signature_def get4_def get2_def centralDirectoryOffset_def
  fileNameLength_def extraFieldLength_def commentFieldLength_def endOfEntry_def
  HeaderSize_def fileName_def mem_read_0 mem_read_Suc mem_read_numeral entryName_def
  compressionMethod_def
  compressedSize_def uncompressedSize_def localHeaderOffset_def localFileNameLength_def
  localExtraFieldLength_def fileData_def LocalHeaderSize_def

lemma example_eocd:
  "signature example_memory 4341 = 0x06054b50 \<and>
   centralDirectoryOffset example_memory 4341 = 104"
  by (simp add: field_defs example_memory_def example_archive_def)

lemma example_header1:
  "signature example_memory 4200 = 0x02014b50 \<and> endOfEntry example_memory 4200 = 4247 \<and>
   mem_read example_memory (fileName 4200) (unat (fileNameLength example_memory 4200)) = [0x41]"
  by (simp add: field_defs example_memory_def example_archive_def)

lemma example_header2:
  "signature example_memory 4247 = 0x02014b50 \<and> endOfEntry example_memory 4247 = 4294 \<and>
   mem_read example_memory (fileName 4247) (unat (fileNameLength example_memory 4247)) = [0x42]"
  by (simp add: field_defs example_memory_def example_archive_def)

lemma example_header3:
  "signature example_memory 4294 = 0x02014b50 \<and> endOfEntry example_memory 4294 = 4341 \<and>
   mem_read example_memory (fileName 4294) (unat (fileNameLength example_memory 4294)) = [0x41]"
  by (simp add: field_defs example_memory_def example_archive_def)

lemma update_again: "i \<noteq> j \<Longrightarrow> xs[i := a, j := b, i := c] = xs[i := c, j := b]"
  by (metis list_update_overwrite list_update_swap)

lemmas add_eval = add_def JarIndex_make_def link_def example_hash_def Let_def

lemma example_walk:
  "walk example_hash example_memory 4363 (JarIndex_make 32) 4200 = Some (Returned example_index)"
  apply (subst walk.simps, simp add: example_header1 add_eval)
  apply (subst walk.simps, simp add: example_header2 add_eval)
  apply (subst walk.simps, simp add: example_header3 add_eval)
  apply (subst walk.simps, simp add: example_eocd)
  apply (simp add: example_index_def update_again)
  done

lemma example_open:
  "JarIndex_open example_hash example_memory example_region = Some example_index"
  apply (simp add: JarIndex_open_def example_region_def Let_def)
  apply (subst scan.simps)
  apply (simp add: example_eocd example_walk)
  done

lemma example_names:
  "entryName example_memory 4200 = [0x41]"
  "entryName example_memory 4247 = [0x42]"
  "entryName example_memory 4294 = [0x41]"
  using example_header1 example_header2 example_header3 by (simp_all add: entryName_def)

section \<open>The archive with 34 entries\<close>

lemmas big_defs = big_memory_def big_pieces_def big_bytes0_def big_bytes1_def big_bytes2_def
  big_bytes3_def big_bytes4_def big_bytes5_def big_bytes6_def big_bytes7_def big_bytes8_def
  big_bytes9_def big_bytes10_def

lemma big_eocd:
  "signature big_memory 10854 = 0x06054b50 \<and>
   centralDirectoryOffset big_memory 10854 = 1062"
  by (simp add: field_defs big_defs)

lemma big_headers:
  "signature big_memory 9254 = 0x02014b50 \<and> endOfEntry big_memory 9254 = 9301 \<and>
     entryName big_memory 9254 = [0x41]"
  "signature big_memory 9301 = 0x02014b50 \<and> endOfEntry big_memory 9301 = 9348 \<and>
     entryName big_memory 9301 = [0x62]"
  "signature big_memory 9348 = 0x02014b50 \<and> endOfEntry big_memory 9348 = 9395 \<and>
     entryName big_memory 9348 = [0x63]"
  "signature big_memory 9395 = 0x02014b50 \<and> endOfEntry big_memory 9395 = 9442 \<and>
     entryName big_memory 9395 = [0x64]"
  "signature big_memory 9442 = 0x02014b50 \<and> endOfEntry big_memory 9442 = 9489 \<and>
     entryName big_memory 9442 = [0x65]"
  "signature big_memory 9489 = 0x02014b50 \<and> endOfEntry big_memory 9489 = 9536 \<and>
     entryName big_memory 9489 = [0x41]"
  "signature big_memory 9536 = 0x02014b50 \<and> endOfEntry big_memory 9536 = 9583 \<and>
     entryName big_memory 9536 = [0x67]"
  "signature big_memory 9583 = 0x02014b50 \<and> endOfEntry big_memory 9583 = 9632 \<and>
     entryName big_memory 9583 = [0x64, 0x2F, 0x58]"
  "signature big_memory 9632 = 0x02014b50 \<and> endOfEntry big_memory 9632 = 9679 \<and>
     entryName big_memory 9632 = [0x68]"
  "signature big_memory 9679 = 0x02014b50 \<and> endOfEntry big_memory 9679 = 9726 \<and>
     entryName big_memory 9679 = [0x69]"
  "signature big_memory 9726 = 0x02014b50 \<and> endOfEntry big_memory 9726 = 9773 \<and>
     entryName big_memory 9726 = [0x6A]"
  "signature big_memory 9773 = 0x02014b50 \<and> endOfEntry big_memory 9773 = 9820 \<and>
     entryName big_memory 9773 = [0x6B]"
  "signature big_memory 9820 = 0x02014b50 \<and> endOfEntry big_memory 9820 = 9867 \<and>
     entryName big_memory 9820 = [0x6C]"
  "signature big_memory 9867 = 0x02014b50 \<and> endOfEntry big_memory 9867 = 9914 \<and>
     entryName big_memory 9867 = [0x6D]"
  "signature big_memory 9914 = 0x02014b50 \<and> endOfEntry big_memory 9914 = 9961 \<and>
     entryName big_memory 9914 = [0x6E]"
  "signature big_memory 9961 = 0x02014b50 \<and> endOfEntry big_memory 9961 = 10008 \<and>
     entryName big_memory 9961 = [0x6F]"
  "signature big_memory 10008 = 0x02014b50 \<and> endOfEntry big_memory 10008 = 10055 \<and>
     entryName big_memory 10008 = [0x70]"
  "signature big_memory 10055 = 0x02014b50 \<and> endOfEntry big_memory 10055 = 10102 \<and>
     entryName big_memory 10055 = [0x71]"
  "signature big_memory 10102 = 0x02014b50 \<and> endOfEntry big_memory 10102 = 10149 \<and>
     entryName big_memory 10102 = [0x72]"
  "signature big_memory 10149 = 0x02014b50 \<and> endOfEntry big_memory 10149 = 10196 \<and>
     entryName big_memory 10149 = [0x73]"
  "signature big_memory 10196 = 0x02014b50 \<and> endOfEntry big_memory 10196 = 10243 \<and>
     entryName big_memory 10196 = [0x74]"
  "signature big_memory 10243 = 0x02014b50 \<and> endOfEntry big_memory 10243 = 10290 \<and>
     entryName big_memory 10243 = [0x75]"
  "signature big_memory 10290 = 0x02014b50 \<and> endOfEntry big_memory 10290 = 10337 \<and>
     entryName big_memory 10290 = [0x76]"
  "signature big_memory 10337 = 0x02014b50 \<and> endOfEntry big_memory 10337 = 10384 \<and>
     entryName big_memory 10337 = [0x77]"
  "signature big_memory 10384 = 0x02014b50 \<and> endOfEntry big_memory 10384 = 10431 \<and>
     entryName big_memory 10384 = [0x78]"
  "signature big_memory 10431 = 0x02014b50 \<and> endOfEntry big_memory 10431 = 10478 \<and>
     entryName big_memory 10431 = [0x79]"
  "signature big_memory 10478 = 0x02014b50 \<and> endOfEntry big_memory 10478 = 10525 \<and>
     entryName big_memory 10478 = [0x7A]"
  "signature big_memory 10525 = 0x02014b50 \<and> endOfEntry big_memory 10525 = 10572 \<and>
     entryName big_memory 10525 = [0x30]"
  "signature big_memory 10572 = 0x02014b50 \<and> endOfEntry big_memory 10572 = 10619 \<and>
     entryName big_memory 10572 = [0x31]"
  "signature big_memory 10619 = 0x02014b50 \<and> endOfEntry big_memory 10619 = 10666 \<and>
     entryName big_memory 10619 = [0x32]"
  "signature big_memory 10666 = 0x02014b50 \<and> endOfEntry big_memory 10666 = 10713 \<and>
     entryName big_memory 10666 = [0x33]"
  "signature big_memory 10713 = 0x02014b50 \<and> endOfEntry big_memory 10713 = 10760 \<and>
     entryName big_memory 10713 = [0x34]"
  "signature big_memory 10760 = 0x02014b50 \<and> endOfEntry big_memory 10760 = 10807 \<and>
     entryName big_memory 10760 = [0x35]"
  "signature big_memory 10807 = 0x02014b50 \<and> endOfEntry big_memory 10807 = 10854 \<and>
     entryName big_memory 10807 = [0x36]"
  by (simp_all add: field_defs big_defs)

lemma big_records: "records big_memory 10876 9254 big_entries 10854"
  by (simp add: big_entries_def big_headers)

lemma big_directory: "directory_of big_memory big_region 10854 big_entries 10854"
  by (auto simp: directory_of_def big_region_def big_eocd big_records)

lemma big_names:
  "map (entryName big_memory) big_entries =
     [[0x41], [0x62], [0x63], [0x64], [0x65], [0x41],
      [0x67], [0x64, 0x2F, 0x58], [0x68], [0x69], [0x6A], [0x6B],
      [0x6C], [0x6D], [0x6E], [0x6F], [0x70], [0x71],
      [0x72], [0x73], [0x74], [0x75], [0x76], [0x77],
      [0x78], [0x79], [0x7A], [0x30], [0x31], [0x32],
      [0x33], [0x34], [0x35], [0x36]]"
  by (simp add: big_entries_def big_headers)

section \<open>Opening an archive\<close>



lemma scan_down:
  assumes "\<forall>p. e < p \<and> p \<le> p0 \<longrightarrow> signature m p \<noteq> 0x06054b50" "start \<le> e"
  shows "scan hashB m start endp ix p0 = scan hashB m start endp ix (min e p0)"
  using assms
proof (induction "nat (p0 - e)" arbitrary: p0)
  case 0
  then show ?case by (simp add: min_def)
next
  case (Suc d)
  then have lt: "e < p0" by linarith
  then have "signature m p0 \<noteq> 0x06054b50" using Suc.prems(1) by simp
  then have "scan hashB m start endp ix p0 = scan hashB m start endp ix (p0 - 1)"
    using lt Suc.prems(2) by (subst scan.simps) simp
  moreover have "scan hashB m start endp ix (p0 - 1) = scan hashB m start endp ix (min e (p0 - 1))"
    using Suc.hyps(2) Suc.prems by (intro Suc.hyps(1)) auto
  ultimately show ?case using lt by (simp add: min_def)
qed

lemma scan_at_start: "scan hashB m start endp ix start = Some ix"
  by (subst scan.simps) simp

lemma scan_below_start: "p \<le> start \<Longrightarrow> scan hashB m start endp ix p = Some ix"
  by (subst scan.simps) simp

lemma walk_records_adds:
  assumes "records m endp p ps q" "q < endp" "signature m q \<noteq> 0x02014b50"
  shows "walk hashB m endp ix p =
     (case add_all ix (map (node_of hashB m) ps) of
        None \<Rightarrow> None
      | Some ix' \<Rightarrow> Some (Returned ix'))"
  using assms
proof (induction ps arbitrary: p ix)
  case Nil
  then show ?case by (subst walk.simps) simp
next
  case (Cons x xs)
  then have p: "x = p" "p < endp" "signature m p = 0x02014b50"
    and r: "records m endp (endOfEntry m p) xs q" by simp_all
  have h: "hash (node_of hashB m p) = hashB (entryName m p)" "entry (node_of hashB m p) = p"
    by (simp_all add: node_of_def)
  show ?case
  proof (cases "add ix (hashB (entryName m p)) p")
    case None
    then show ?thesis using p by (subst walk.simps) (simp add: h entryName_def)
  next
    case (Some ix1)
    have "walk hashB m endp ix p = walk hashB m endp ix1 (endOfEntry m p)"
      using p Some by (subst walk.simps) (simp add: entryName_def)
    also have "\<dots> = (case add_all ix1 (map (node_of hashB m) xs) of
        None \<Rightarrow> None | Some ix' \<Rightarrow> Some (Returned ix'))"
      using r Cons.prems(2,3) by (rule Cons.IH)
    finally show ?thesis using p Some by (simp add: h)
  qed
qed

lemma open_directory:
  assumes d: "directory_of m r e es q"
  shows "JarIndex_open hashB m r = add_all (JarIndex_make 32) (map (node_of hashB m) es)"
proof -
  let ?start = "span_start r"
  let ?endp = "?start + int (span_length r)"
  let ?ix0 = "JarIndex_make 32"
  have e: "?start < e" "e \<le> ?endp - 22" "signature m e = 0x06054b50"
    and above: "\<forall>p. e < p \<and> p \<le> ?endp - 22 \<longrightarrow> signature m p \<noteq> 0x06054b50"
    and rec: "records m ?endp (?start + uint (centralDirectoryOffset m e)) es q"
    and q: "q < ?endp" "signature m q \<noteq> 0x02014b50"
    using d by (simp_all add: directory_of_def)
  have "scan hashB m ?start ?endp ?ix0 (?endp - 22) =
      scan hashB m ?start ?endp ?ix0 (min e (?endp - 22))"
    using above e by (intro scan_down) simp_all
  then have down: "scan hashB m ?start ?endp ?ix0 (?endp - 22) = scan hashB m ?start ?endp ?ix0 e"
    using e by (simp add: min_def)
  note w = walk_records_adds [OF rec q, of hashB ?ix0]
  have "scan hashB m ?start ?endp ?ix0 e = add_all ?ix0 (map (node_of hashB m) es)"
    using e w by (subst scan.simps) (simp split: option.splits)
  then show ?thesis using down by (simp add: JarIndex_open_def Let_def)
qed

lemma bucket32: "unat ((h::u32) AND (32 - 1)) < 32"
  using bucket_less [of 5 h] by simp

lemma findNode_make32: "findNode hashN m (JarIndex_make 32) name = None"
  using bucket32 [of "hashN name"] by (simp add: findNode_def JarIndex_make_def)

text \<open>
  C9. The backward scan only looks at pointers above the start of the region. For a
  region of 22 bytes or fewer, whatever the memory holds (an end of central directory
  record at offset 0 as well), \<^verbatim>\<open>open\<close> returns the fresh index of capacity 32, which has
  no node; \<^verbatim>\<open>findNode\<close>, \<^verbatim>\<open>exists\<close> and \<^verbatim>\<open>find\<close> then report every name absent.
\<close>

theorem open_short_region:
  assumes "span_length region \<le> 22"
  shows "JarIndex_open hashB m region = Some (JarIndex_make 32) \<and>
    nodes (JarIndex_make 32) = [] \<and>
    (\<forall>name. findNode hashN m (JarIndex_make 32) name = None \<and>
       \<not> JarIndex_exists hashN m (JarIndex_make 32) name \<and>
       JarIndex_find z hashN mapped m (JarIndex_make 32) name (span_start region) = Inr None)"
proof -
  have "span_start region + int (span_length region) - 22 \<le> span_start region"
    using assms by simp
  then have "JarIndex_open hashB m region = Some (JarIndex_make 32)"
    by (simp add: JarIndex_open_def Let_def scan_below_start)
  then show ?thesis
    by (simp add: findNode_make32 JarIndex_exists_def JarIndex_find_def) (simp add: JarIndex_make_def)
qed

theorem open_short_region_witness:
  "span_length \<lparr>span_start = 4096, span_length = 22\<rparr> \<le> 22 \<and>
   signature empty_memory 4096 = 0x06054b50 \<and>
   JarIndex_open example_hash empty_memory \<lparr>span_start = 4096, span_length = 22\<rparr> =
     Some (JarIndex_make 32) \<and>
   nodes (JarIndex_make 32) = [] \<and>
   findNode example_hash empty_memory (JarIndex_make 32) [0x41] = None \<and>
   \<not> JarIndex_exists example_hash empty_memory (JarIndex_make 32) [0x41] \<and>
   JarIndex_find example_codec example_hash (\<lambda>a. 4096 \<le> a \<and> a < 4118) empty_memory
     (JarIndex_make 32) [0x41] 4096 = Inr None"
proof -
  have l: "span_length \<lparr>span_start = 4096, span_length = 22\<rparr> \<le> 22" by simp
  have s: "signature empty_memory 4096 = 0x06054b50"
    by (simp add: signature_def get4_def empty_memory_def empty_archive_def)
  show ?thesis
    using open_short_region [OF l, of example_hash empty_memory example_hash example_codec
        "\<lambda>a. 4096 \<le> a \<and> a < 4118"] s
    by simp
qed



lemma overrun_header:
  "signature overrun_memory 4096 = 0x02014b50 \<and> endOfEntry overrun_memory 4096 = 4164"
  by (simp add: field_defs overrun_memory_def overrun_archive_def)

lemma overrun_eocd:
  "signature overrun_memory 4142 = 0x06054b50 \<and>
   centralDirectoryOffset overrun_memory 4142 = 0"
  by (simp add: field_defs overrun_memory_def overrun_archive_def)

lemma overrun_no_eocd:
  assumes "4142 < p" "p \<le> 4164"
  shows "signature overrun_memory p \<noteq> 0x06054b50"
proof -
  have "p = 4143 \<or> p = 4144 \<or> p = 4145 \<or> p = 4146 \<or> p = 4147 \<or> p = 4148 \<or> p = 4149 \<or> p = 4150 \<or> p = 4151 \<or> p = 4152 \<or> p = 4153 \<or> p = 4154 \<or> p = 4155 \<or> p = 4156 \<or> p = 4157 \<or> p = 4158 \<or> p = 4159 \<or> p = 4160 \<or> p = 4161 \<or> p = 4162 \<or> p = 4163 \<or> p = 4164"
    using assms by arith
  then show ?thesis
    by (elim disjE) (simp_all add: field_defs overrun_memory_def overrun_archive_def)
qed

lemma overrun_walk:
  "walk hashB overrun_memory 4164 ix 4096 =
     (case add ix (hashB []) 4096 of None \<Rightarrow> None | Some ix' \<Rightarrow> Some (Passed 4164 ix'))"
proof -
  have n: "mem_read overrun_memory (fileName 4096) (unat (fileNameLength overrun_memory 4096)) = []"
    by (simp add: field_defs overrun_memory_def overrun_archive_def)
  have w: "\<And>ix'. walk hashB overrun_memory 4164 ix' 4164 = Some (Passed 4164 ix')"
    by (subst walk.simps) simp
  show ?thesis
    by (subst walk.simps) (simp add: overrun_header n w split: option.splits)
qed

lemma overrun_scan:
  assumes s: "scan hashB m start endp ix p = Some y"
  shows "\<not> (m = overrun_memory \<and> start = 4096 \<and> endp = 4164 \<and> 4142 \<le> p \<and> p \<le> 4164)"
proof (rule scan.raw_induct [where P = "\<lambda>hashB m start endp ix p y.
      \<not> (m = overrun_memory \<and> start = 4096 \<and> endp = 4164 \<and> 4142 \<le> p \<and> p \<le> 4164)",
      OF _ s], goal_cases)
  case (1 scan' hashB m start endp ix p y)
  note IH = "1"(1) and body = "1"(2)
  show ?case
  proof
    assume a: "m = overrun_memory \<and> start = 4096 \<and> endp = 4164 \<and> 4142 \<le> p \<and> p \<le> 4164"
    show False
    proof (cases "p = 4142")
      case True
      show False
      proof (cases "add ix (hashB []) 4096")
        case None
        then show False using body a True by (simp add: overrun_eocd overrun_walk)
      next
        case (Some ix')
        then have "scan' hashB m start endp ix' 4164 = Some y"
          using body a True by (simp add: overrun_eocd overrun_walk)
        from IH [OF this] a show False by simp
      qed
    next
      case False
      then have "signature overrun_memory p \<noteq> 0x06054b50"
        using a by (intro overrun_no_eocd) simp_all
      then have "scan' hashB m start endp ix (p - 1) = Some y"
        using body a by simp
      from IH [OF this] a False show False by simp
    qed
  qed
qed

text \<open>
  Outside the two cases of C5: on the archive whose central header runs to the end of
  the region, the walk adds the entry and passes the end, the backward scan goes on from
  there and finds the record again, without end. \<^verbatim>\<open>open\<close> does not return.
\<close>

theorem open_overrun: "JarIndex_open hashB overrun_memory overrun_region = None"
proof (cases "JarIndex_open hashB overrun_memory overrun_region")
  case None
  then show ?thesis .
next
  case (Some y)
  then have "scan hashB overrun_memory 4096 4164 (JarIndex_make 32) 4142 = Some y"
    by (simp add: JarIndex_open_def overrun_region_def Let_def)
  from overrun_scan [OF this] show ?thesis by simp
qed

section \<open>The index: buckets and lookup\<close>

lemma find_Some_in: "List.find P xs = Some x \<Longrightarrow> P x \<and> x \<in> set xs"
  by (induction xs) (auto split: if_splits)

lemma find_skip: "\<forall>x \<in> set xs. \<not> P x \<Longrightarrow> List.find P (xs @ ys) = List.find P ys"
  by (induction xs) auto

lemma findNode_found:
  assumes inv: "index_inv ix" and n: "n \<in> set (nodes ix)"
    and h: "hash n = hashN name" and nm: "entryName m (entry n) = name"
  shows "\<exists>n'. findNode hashN m ix name = Some n' \<and> n' \<in> set (nodes ix) \<and>
           entryName m (entry n') = name \<and>
           n' \<in> set (table ix ! unat (hashN name AND (capacity ix - 1)))"
proof -
  let ?i = "unat (hashN name AND (capacity ix - 1))"
  let ?P = "\<lambda>n. bucket (capacity ix) n = ?i \<and> matches m name n"
  have f: "findNode hashN m ix name = List.find ?P (rev (nodes ix))"
    using inv by (rule findNode_bucket)
  have "?P n" using h nm by (simp add: bucket_def matches_name)
  then have "\<exists>x \<in> set (rev (nodes ix)). ?P x" using n by auto
  then obtain n' where n': "List.find ?P (rev (nodes ix)) = Some n'"
    by (cases "List.find ?P (rev (nodes ix))") (auto simp: find_None_iff)
  then have p': "?P n'" and in': "n' \<in> set (nodes ix)"
    using find_Some_in [of ?P "rev (nodes ix)" n'] by simp_all
  have i: "?i < unat (capacity ix)"
    using bucket_in_range [OF inv, of n'] p' by simp
  then have "table ix ! ?i = rev (filter (\<lambda>n. bucket (capacity ix) n = ?i) (nodes ix))"
    using inv by (simp add: index_inv_def)
  then have "n' \<in> set (table ix ! ?i)" using p' in' by simp
  then show ?thesis using f n' p' in' by (simp add: matches_name)
qed

lemma findNode_latest:
  assumes inv: "index_inv ix" and ns: "nodes ix = pre @ n # post"
    and h: "hash n = hashN name" and nm: "entryName m (entry n) = name"
    and post: "\<forall>n' \<in> set post. entryName m (entry n') \<noteq> name"
  shows "findNode hashN m ix name = Some n"
proof -
  let ?i = "unat (hashN name AND (capacity ix - 1))"
  let ?P = "\<lambda>n. bucket (capacity ix) n = ?i \<and> matches m name n"
  have f: "findNode hashN m ix name = List.find ?P (rev (nodes ix))"
    using inv by (rule findNode_bucket)
  have "?P n" using h nm by (simp add: bucket_def matches_name)
  moreover have "\<forall>x \<in> set (rev post). \<not> ?P x" using post by (simp add: matches_name)
  ultimately have "List.find ?P (rev post @ n # rev pre) = Some n"
    by (simp add: find_skip)
  then show ?thesis using f ns by simp
qed

lemma findNode_absent:
  assumes inv: "index_inv ix" and no: "\<forall>n \<in> set (nodes ix). entryName m (entry n) \<noteq> name"
  shows "findNode hashN m ix name = None"
  using findNode_bucket [OF inv, of hashN m name] no
  by (auto simp: find_None_iff matches_name)

lemma jar_iterator_yields:
  assumes inv: "index_inv ix" and k: "k \<le> length (nodes ix)"
  shows "yields (JarIterator_next s) (JarIterator (Some ix) (of_nat k))
           (map (\<lambda>n. entryName (env_memory s) (entry n)) (drop k (nodes ix)))
           (JarIterator (Some ix) (position ix))"
  using k
proof (induction "length (nodes ix) - k" arbitrary: k)
  case 0
  then have "k = length (nodes ix)" by simp
  then show ?case using inv
    by (auto simp: index_inv_def intro!: yields.finished)
next
  case (Suc d)
  then have lt: "k < length (nodes ix)" by simp
  have le: "length (nodes ix) \<le> unat (capacity ix)" using inv by (simp add: index_inv_def)
  have "k \<le> unat (capacity ix)" using lt le by simp
  then have uk: "unat (of_nat k :: u32) = k" by (rule le_unat_uoi)
  have ul: "unat (of_nat (length (nodes ix)) :: u32) = length (nodes ix)"
    using le by (rule le_unat_uoi)
  have plt: "(of_nat k :: u32) < position ix"
    using inv lt uk ul by (simp add: index_inv_def word_less_nat_alt)
  have step: "JarIterator_next s (JarIterator (Some ix) (of_nat k)) =
      Inr (Some (entryName (env_memory s) (entry (nodes ix ! k))),
           JarIterator (Some ix) (of_nat (Suc k)))"
    using plt uk by (simp add: entryName_def Let_def)
  have rest: "yields (JarIterator_next s) (JarIterator (Some ix) (of_nat (Suc k)))
           (map (\<lambda>n. entryName (env_memory s) (entry n)) (drop (Suc k) (nodes ix)))
           (JarIterator (Some ix) (position ix))"
    using Suc.hyps(2) lt by (intro Suc.hyps(1)) simp_all
  have "drop k (nodes ix) = nodes ix ! k # drop (Suc k) (nodes ix)"
    using lt by (simp add: Cons_nth_drop_Suc)
  then show ?case using yields.another [OF step rest] by simp
qed

lemma capacity_of_34:
  assumes "5 \<le> k" "(34::nat) \<le> 2 ^ k" "5 < k \<longrightarrow> 2 ^ (k - 1) < (34::nat)"
  shows "k = 6"
proof -
  have "k \<noteq> 5" using assms(2) by auto
  then have k: "5 < k" using assms(1) by simp
  have "\<not> 7 \<le> k"
  proof
    assume "7 \<le> k"
    then have "6 \<le> k - 1" by simp
    then have "(2::nat) ^ 6 \<le> 2 ^ (k - 1)" by (rule power_increasing) simp
    then show False using assms(3) k by simp
  qed
  then show ?thesis using k by simp
qed

lemma big_length: "length big_entries = 34"
  by (simp add: big_entries_def)

lemma big_open:
  "JarIndex_open example_hash big_memory big_region = Some big_index"
  "index_inv big_index"
  "nodes big_index = map (node_of example_hash big_memory) big_entries"
proof -
  let ?ns = "map (node_of example_hash big_memory) big_entries"
  have o: "JarIndex_open example_hash big_memory big_region = add_all (JarIndex_make (2 ^ 5)) ?ns"
    using open_directory [OF big_directory, of example_hash] by simp
  have "\<exists>ix. add_all (JarIndex_make (2 ^ 5)) ?ns = Some ix"
    using add_all_returns [OF make_inv [of 5], of ?ns] by (simp add: JarIndex_make_def big_length)
  then obtain ix where ix: "add_all (JarIndex_make (2 ^ 5)) ?ns = Some ix" by blast
  then have b: "big_index = ix" using o by (simp add: big_index_def)
  show "JarIndex_open example_hash big_memory big_region = Some big_index"
    using o ix b by simp
  show "index_inv big_index" "nodes big_index = ?ns"
    using add_all_make [of 5 ?ns ix] ix b by simp_all
qed

lemma grown_adds:
  "add_all (JarIndex_make (2 ^ 0))
     [\<lparr>hash = 0x41, entry = 4200\<rparr>, \<lparr>hash = 0x42, entry = 4247\<rparr>, \<lparr>hash = 0x41, entry = 4294\<rparr>]
   = Some grown_index"
  by (simp add: add_def add_inner_def JarIndex_make_def link_def Let_def grown_index_def update_again)

lemma big_env_simps:
  "env_memory big_env = big_memory"
  "env_mapped big_env = big_mapped"
  "env_hashN big_env = example_hash"
  "env_hashB big_env = example_hash"
  "env_zlib big_env = example_codec"
  by (simp_all add: big_env_def example_env_def)

text \<open>
  C3. A sequence of calls of \<^verbatim>\<open>add\<close> on a fresh index of capacity \<^verbatim>\<open>2^k0\<close>, with up to 2^31
  nodes, returns an index. The capacity of that index is a power of two \<^verbatim>\<open>2^k\<close>, and the
  least from \<^verbatim>\<open>2^k0\<close> on that takes the nodes inserted: the index is doubled \<^verbatim>\<open>k - k0\<close>
  times, each time when it is full. Its node array holds exactly the nodes inserted, in
  the order of insertion, whatever the number of doublings, and \<^verbatim>\<open>position\<close> is their
  number; chain \<^verbatim>\<open>i\<close> of its table holds exactly the inserted nodes with
  \<^verbatim>\<open>hash & (capacity - 1) = i\<close>, the latest first; and for each inserted node whose hash is
  the hash of its name, the name being a C string, \<^verbatim>\<open>findNode\<close> of that name returns an
  inserted node of that name from the chain of bucket \<^verbatim>\<open>hash(name) & (capacity - 1)\<close>: that
  very node when no other inserted node has the name.
  \<^verbatim>\<open>open\<close> returns what such a sequence returns from \<^verbatim>\<open>make(s, 32)\<close>: for the central
  directory of an archive, the sequence of its central headers in their order, each with
  the hash of its name.
\<close>

theorem index_buckets:
  "(k0 < 32 \<and> length ns \<le> 2 ^ 31 \<longrightarrow> (\<exists>ix. add_all (JarIndex_make (2 ^ k0)) ns = Some ix)) \<and>
   (k0 < 32 \<and> add_all (JarIndex_make (2 ^ k0)) ns = Some ix \<longrightarrow>
      (\<exists>k. k0 \<le> k \<and> k < 32 \<and> capacity ix = 2 ^ k \<and> length ns \<le> 2 ^ k \<and>
           (k0 < k \<longrightarrow> 2 ^ (k - 1) < length ns)) \<and>
      nodes ix = ns \<and>
      unat (position ix) = length ns \<and>
      length (table ix) = unat (capacity ix) \<and>
      (\<forall>i < unat (capacity ix).
          table ix ! i = rev (filter (\<lambda>n. unat (hash n AND (capacity ix - 1)) = i) ns)) \<and>
      (\<forall>n \<in> set ns. unat (hash n AND (capacity ix - 1)) < unat (capacity ix) \<and>
          n \<in> set (table ix ! unat (hash n AND (capacity ix - 1)))) \<and>
      (\<forall>n \<in> set ns. hash n = hashN (entryName m (entry n)) \<and> 0 \<notin> set (entryName m (entry n)) \<longrightarrow>
          (\<exists>n'. findNode hashN m ix (entryName m (entry n)) = Some n' \<and> n' \<in> set ns \<and>
             entryName m (entry n') = entryName m (entry n) \<and>
             n' \<in> set (table ix ! unat (hashN (entryName m (entry n)) AND (capacity ix - 1)))) \<and>
          ((\<forall>x \<in> set ns. entryName m (entry x) = entryName m (entry n) \<longrightarrow> x = n) \<longrightarrow>
             findNode hashN m ix (entryName m (entry n)) = Some n))) \<and>
   (directory_of m r e es q \<longrightarrow>
      JarIndex_open hashB m r = add_all (JarIndex_make (2 ^ 5)) (map (node_of hashB m) es)) \<and>
   (JarIndex_open hashB m r = Some ix' \<longrightarrow>
      (\<exists>es'. add_all (JarIndex_make (2 ^ 5)) (map (node_of hashB m) es') = Some ix'))"
proof (intro conjI impI)
  assume "k0 < 32 \<and> length ns \<le> 2 ^ 31"
  then show "\<exists>ix. add_all (JarIndex_make (2 ^ k0)) ns = Some ix"
    using add_all_returns [OF make_inv [of k0], of ns] by (simp add: JarIndex_make_def)
next
  assume "directory_of m r e es q"
  then show "JarIndex_open hashB m r = add_all (JarIndex_make (2 ^ 5)) (map (node_of hashB m) es)"
    using open_directory [of m r e es q hashB] by simp
next
  assume "JarIndex_open hashB m r = Some ix'"
  then show "\<exists>es'. add_all (JarIndex_make (2 ^ 5)) (map (node_of hashB m) es') = Some ix'"
    using open_adds [of hashB m r ix'] by simp
next
  assume a: "k0 < 32 \<and> add_all (JarIndex_make (2 ^ k0)) ns = Some ix"
  then have inv: "index_inv ix" and n: "nodes ix = ns"
    and k: "\<exists>k. k0 \<le> k \<and> k < 32 \<and> capacity ix = 2 ^ k \<and> length ns \<le> 2 ^ k \<and>
           (k0 < k \<longrightarrow> 2 ^ (k - 1) < length ns)"
    using add_all_make [of k0 ns ix] by simp_all
  show "\<exists>k. k0 \<le> k \<and> k < 32 \<and> capacity ix = 2 ^ k \<and> length ns \<le> 2 ^ k \<and>
           (k0 < k \<longrightarrow> 2 ^ (k - 1) < length ns)" by (rule k)
  show "nodes ix = ns" by (rule n)
  have "length (nodes ix) \<le> unat (capacity ix)" using inv by (simp add: index_inv_def)
  then have "unat (of_nat (length (nodes ix)) :: u32) = length (nodes ix)" by (rule le_unat_uoi)
  then show "unat (position ix) = length ns" using inv n by (simp add: index_inv_def)
  show "length (table ix) = unat (capacity ix)" using inv by (simp add: index_inv_def)
  show "\<forall>i < unat (capacity ix).
          table ix ! i = rev (filter (\<lambda>n. unat (hash n AND (capacity ix - 1)) = i) ns)"
    using inv n by (simp add: index_inv_def bucket_def)
  show "\<forall>n \<in> set ns. unat (hash n AND (capacity ix - 1)) < unat (capacity ix) \<and>
          n \<in> set (table ix ! unat (hash n AND (capacity ix - 1)))"
  proof
    fix x assume x: "x \<in> set ns"
    have r: "bucket (capacity ix) x < unat (capacity ix)" using inv by (rule bucket_in_range)
    then have "table ix ! bucket (capacity ix) x =
        rev (filter (\<lambda>n. bucket (capacity ix) n = bucket (capacity ix) x) (nodes ix))"
      using inv by (simp add: index_inv_def)
    then have "x \<in> set (table ix ! bucket (capacity ix) x)" using x n by simp
    then show "unat (hash x AND (capacity ix - 1)) < unat (capacity ix) \<and>
          x \<in> set (table ix ! unat (hash x AND (capacity ix - 1)))"
      using r by (simp add: bucket_def)
  qed
  show "\<forall>n \<in> set ns. hash n = hashN (entryName m (entry n)) \<and> 0 \<notin> set (entryName m (entry n)) \<longrightarrow>
          (\<exists>n'. findNode hashN m ix (entryName m (entry n)) = Some n' \<and> n' \<in> set ns \<and>
             entryName m (entry n') = entryName m (entry n) \<and>
             n' \<in> set (table ix ! unat (hashN (entryName m (entry n)) AND (capacity ix - 1)))) \<and>
          ((\<forall>x \<in> set ns. entryName m (entry x) = entryName m (entry n) \<longrightarrow> x = n) \<longrightarrow>
             findNode hashN m ix (entryName m (entry n)) = Some n)"
  proof (intro ballI impI)
    fix x assume x: "x \<in> set ns"
      and h: "hash x = hashN (entryName m (entry x)) \<and> 0 \<notin> set (entryName m (entry x))"
    from findNode_found [OF inv, of x hashN "entryName m (entry x)" m] x n h
    have f: "\<exists>n'. findNode hashN m ix (entryName m (entry x)) = Some n' \<and> n' \<in> set ns \<and>
             entryName m (entry n') = entryName m (entry x) \<and>
             n' \<in> set (table ix ! unat (hashN (entryName m (entry x)) AND (capacity ix - 1)))"
      by simp
    then have "(\<forall>y \<in> set ns. entryName m (entry y) = entryName m (entry x) \<longrightarrow> y = x) \<longrightarrow>
             findNode hashN m ix (entryName m (entry x)) = Some x"
      by blast
    with f show "(\<exists>n'. findNode hashN m ix (entryName m (entry x)) = Some n' \<and> n' \<in> set ns \<and>
             entryName m (entry n') = entryName m (entry x) \<and>
             n' \<in> set (table ix ! unat (hashN (entryName m (entry x)) AND (capacity ix - 1)))) \<and>
          ((\<forall>y \<in> set ns. entryName m (entry y) = entryName m (entry x) \<longrightarrow> y = x) \<longrightarrow>
             findNode hashN m ix (entryName m (entry x)) = Some x)"
      by (rule conjI)
  qed
qed

theorem index_buckets_witness:
  "directory_of big_memory big_region 10854 big_entries 10854 \<and>
   length big_entries = 34 \<and>
   (\<exists>ix. JarIndex_open example_hash big_memory big_region = Some ix \<and>
      capacity ix = 64 \<and>
      nodes ix = map (node_of example_hash big_memory) big_entries \<and>
      \<lparr>hash = 0x41, entry = 9254\<rparr> \<in> set (table ix ! 1) \<and>
      findNode example_hash big_memory ix [0x64, 0x2F, 0x58] =
        Some \<lparr>hash = example_hash [0x64, 0x2F, 0x58], entry = 9583\<rparr> \<and>
      \<lparr>hash = example_hash [0x64, 0x2F, 0x58], entry = 9583\<rparr> \<in>
        set (table ix ! unat (example_hash [0x64, 0x2F, 0x58] AND 63)) \<and>
      (\<exists>es'. add_all (JarIndex_make (2 ^ 5)) (map (node_of example_hash big_memory) es') = Some ix))"
proof -
  let ?ns = "map (node_of example_hash big_memory) big_entries"
  note t = index_buckets [where ?k0.0 = 5 and ns = ?ns and hashN = example_hash
      and m = big_memory and r = big_region and e = 10854 and es = big_entries and q = 10854
      and hashB = example_hash]
  have o: "JarIndex_open example_hash big_memory big_region = add_all (JarIndex_make (2 ^ 5)) ?ns"
    using t big_directory by blast
  have "\<exists>ix. add_all (JarIndex_make (2 ^ 5)) ?ns = Some ix"
    using t [THEN conjunct1] by (simp add: big_length)
  then obtain ix where ix: "add_all (JarIndex_make (2 ^ 5)) ?ns = Some ix" by blast
  note p = t [of ix, THEN conjunct2, THEN conjunct1, rule_format, OF conjI [OF _ ix]]
  have "\<exists>k. 5 \<le> k \<and> k < 32 \<and> capacity ix = 2 ^ k \<and> length ?ns \<le> 2 ^ k \<and>
           (5 < k \<longrightarrow> 2 ^ (k - 1) < length ?ns)"
    using p by simp
  then obtain k where k: "5 \<le> k" "capacity ix = 2 ^ k" "34 \<le> (2::nat) ^ k"
    "5 < k \<longrightarrow> (2::nat) ^ (k - 1) < 34"
    by (auto simp: big_length)
  have "k = 6" using k(1,3,4) by (rule capacity_of_34)
  then have c: "capacity ix = 64" using k(2) by simp
  have n: "nodes ix = ?ns" using p by simp
  have a: "node_of example_hash big_memory 9254 = \<lparr>hash = 0x41, entry = 9254\<rparr>"
    by (simp add: node_of_def big_headers example_hash_def)
  have x: "node_of example_hash big_memory 9583 = \<lparr>hash = example_hash [0x64, 0x2F, 0x58], entry = 9583\<rparr>"
    by (simp add: node_of_def big_headers)
  have ain: "\<lparr>hash = 0x41, entry = 9254\<rparr> \<in> set ?ns"
    using a by (simp add: big_entries_def)
  have xin: "\<lparr>hash = example_hash [0x64, 0x2F, 0x58], entry = 9583\<rparr> \<in> set ?ns"
    using x by (simp add: big_entries_def)
  have "\<forall>n \<in> set ?ns. unat (hash n AND (capacity ix - 1)) < unat (capacity ix) \<and>
          n \<in> set (table ix ! unat (hash n AND (capacity ix - 1)))"
    using p by simp
  from this [rule_format, OF ain] have 1: "\<lparr>hash = 0x41, entry = 9254\<rparr> \<in> set (table ix ! 1)"
    by (simp add: c)
  let ?x = "\<lparr>hash = example_hash [0x64, 0x2F, 0x58], entry = 9583 :: int\<rparr>"
  have "\<forall>n \<in> set ?ns. hash n = example_hash (entryName big_memory (entry n)) \<and>
          0 \<notin> set (entryName big_memory (entry n)) \<longrightarrow>
          (\<exists>n'. findNode example_hash big_memory ix (entryName big_memory (entry n)) = Some n' \<and>
             n' \<in> set ?ns \<and>
             entryName big_memory (entry n') = entryName big_memory (entry n) \<and>
             n' \<in> set (table ix ! unat (example_hash (entryName big_memory (entry n)) AND (capacity ix - 1)))) \<and>
          ((\<forall>x \<in> set ?ns. entryName big_memory (entry x) = entryName big_memory (entry n) \<longrightarrow> x = n) \<longrightarrow>
             findNode example_hash big_memory ix (entryName big_memory (entry n)) = Some n)"
    using p by simp
  from this [rule_format, OF xin]
  have f: "(\<exists>n'. findNode example_hash big_memory ix [0x64, 0x2F, 0x58] = Some n' \<and>
         n' \<in> set ?ns \<and>
         entryName big_memory (entry n') = [0x64, 0x2F, 0x58] \<and>
         n' \<in> set (table ix ! unat (example_hash [0x64, 0x2F, 0x58] AND 63))) \<and>
      ((\<forall>x \<in> set ?ns. entryName big_memory (entry x) = [0x64, 0x2F, 0x58] \<longrightarrow> x = ?x) \<longrightarrow>
         findNode example_hash big_memory ix [0x64, 0x2F, 0x58] = Some ?x)"
    by (simp add: big_headers c)
  have only: "\<forall>x \<in> set ?ns. entryName big_memory (entry x) = [0x64, 0x2F, 0x58] \<longrightarrow> x = ?x"
    by (simp add: big_entries_def node_of_def big_headers)
  have 2: "findNode example_hash big_memory ix [0x64, 0x2F, 0x58] = Some ?x \<and>
      ?x \<in> set (table ix ! unat (example_hash [0x64, 0x2F, 0x58] AND 63))"
    using f only by auto
  have op: "JarIndex_open example_hash big_memory big_region = Some ix" using o ix by simp
  have 3: "\<exists>es'. add_all (JarIndex_make (2 ^ 5)) (map (node_of example_hash big_memory) es') = Some ix"
    using t [where ix' = ix, THEN conjunct2, THEN conjunct2, THEN conjunct2] op by blast
  show ?thesis using op big_directory big_length c n 1 2 3 by blast
qed

text \<open>
  C10. After a sequence of calls of \<^verbatim>\<open>add\<close> on a fresh index, with any number of doublings,
  \<^verbatim>\<open>findNode\<close> of a name (a C string) returns the node inserted last among those of that
  name, when its hash is the hash of the name, and null when no inserted node has the
  name; the iterator yields the names of all the nodes in the order of insertion. For
  the central directory of an archive with up to 2^31 entries, when the two overloads of
  \<^verbatim>\<open>hash\<close> agree on the name: \<^verbatim>\<open>open\<close> returns an index whose node array holds the entries
  in their order, of a capacity doubled from 32 as often as their number requires;
  \<^verbatim>\<open>findNode\<close> returns the node of the entry of that name
  that stands last in the central directory and \<^verbatim>\<open>exists\<close> is true, or no entry has the name,
  \<^verbatim>\<open>findNode\<close> returns null and \<^verbatim>\<open>exists\<close> is false; and the iterator yields the name of every
  entry, duplicates included, in the order of the central directory.
\<close>

theorem findNode_last_entry:
  "(k0 < 32 \<and> add_all (JarIndex_make (2 ^ k0)) ns = Some ix \<and> 0 \<notin> set name \<longrightarrow>
      (\<forall>pre n post. ns = pre @ n # post \<and> entryName (env_memory s) (entry n) = name \<and>
           hash n = hashN name \<and>
           (\<forall>n' \<in> set post. entryName (env_memory s) (entry n') \<noteq> name) \<longrightarrow>
           findNode hashN (env_memory s) ix name = Some n) \<and>
      ((\<forall>n \<in> set ns. entryName (env_memory s) (entry n) \<noteq> name) \<longrightarrow>
           findNode hashN (env_memory s) ix name = None) \<and>
      yields (JarIterator_next s) (JarIterator (Some ix) 0)
        (map (\<lambda>n. entryName (env_memory s) (entry n)) ns)
        (JarIterator (Some ix) (position ix))) \<and>
   (directory_of (env_memory s) r e es q \<and> length es \<le> 2 ^ 31 \<and>
      hashN name = hashB name \<and> 0 \<notin> set name \<longrightarrow>
      (\<exists>ix. JarIndex_open hashB (env_memory s) r = Some ix \<and>
         nodes ix = map (node_of hashB (env_memory s)) es \<and>
         (\<exists>k. 5 \<le> k \<and> k < 32 \<and> capacity ix = 2 ^ k \<and> length es \<le> 2 ^ k \<and>
              (5 < k \<longrightarrow> 2 ^ (k - 1) < length es)) \<and>
         (\<forall>pre p post. es = pre @ p # post \<and> entryName (env_memory s) p = name \<and>
              (\<forall>p' \<in> set post. entryName (env_memory s) p' \<noteq> name) \<longrightarrow>
              findNode hashN (env_memory s) ix name = Some (node_of hashB (env_memory s) p) \<and>
              JarIndex_exists hashN (env_memory s) ix name) \<and>
         ((\<forall>p \<in> set es. entryName (env_memory s) p \<noteq> name) \<longrightarrow>
              findNode hashN (env_memory s) ix name = None \<and>
              \<not> JarIndex_exists hashN (env_memory s) ix name) \<and>
         yields (JarIterator_next s) (JarIterator (Some ix) 0)
           (map (entryName (env_memory s)) es) (JarIterator (Some ix) (position ix))))"
proof (rule conjI; rule impI)
  let ?m = "env_memory s"
  assume a: "k0 < 32 \<and> add_all (JarIndex_make (2 ^ k0)) ns = Some ix \<and> 0 \<notin> set name"
  then have inv: "index_inv ix" and n: "nodes ix = ns"
    using add_all_make [of k0 ns ix] by simp_all
  have 1: "\<forall>pre n post. ns = pre @ n # post \<and> entryName ?m (entry n) = name \<and>
           hash n = hashN name \<and>
           (\<forall>n' \<in> set post. entryName ?m (entry n') \<noteq> name) \<longrightarrow>
           findNode hashN ?m ix name = Some n"
    using findNode_latest [OF inv, of _ _ _ hashN name ?m] n by blast
  have 2: "(\<forall>n \<in> set ns. entryName ?m (entry n) \<noteq> name) \<longrightarrow> findNode hashN ?m ix name = None"
    using findNode_absent [OF inv, of ?m name hashN] n by simp
  have 3: "yields (JarIterator_next s) (JarIterator (Some ix) 0)
        (map (\<lambda>n. entryName ?m (entry n)) ns) (JarIterator (Some ix) (position ix))"
    using jar_iterator_yields [OF inv, of 0 s] n by simp
  show "(\<forall>pre n post. ns = pre @ n # post \<and> entryName ?m (entry n) = name \<and>
           hash n = hashN name \<and>
           (\<forall>n' \<in> set post. entryName ?m (entry n') \<noteq> name) \<longrightarrow>
           findNode hashN ?m ix name = Some n) \<and>
      ((\<forall>n \<in> set ns. entryName ?m (entry n) \<noteq> name) \<longrightarrow>
           findNode hashN ?m ix name = None) \<and>
      yields (JarIterator_next s) (JarIterator (Some ix) 0)
        (map (\<lambda>n. entryName ?m (entry n)) ns)
        (JarIterator (Some ix) (position ix))"
    using 1 2 3 by (intro conjI)
next
  let ?m = "env_memory s"
  let ?ns = "map (node_of hashB ?m) es"
  assume a: "directory_of ?m r e es q \<and> length es \<le> 2 ^ 31 \<and>
      hashN name = hashB name \<and> 0 \<notin> set name"
  have o: "JarIndex_open hashB ?m r = add_all (JarIndex_make (2 ^ 5)) ?ns"
    using a open_directory [of ?m r e es q hashB] by simp
  have "\<exists>ix. add_all (JarIndex_make (2 ^ 5)) ?ns = Some ix"
    using a add_all_returns [OF make_inv [of 5], of ?ns] by (simp add: JarIndex_make_def)
  then obtain ix where ix: "add_all (JarIndex_make (2 ^ 5)) ?ns = Some ix" by blast
  have inv: "index_inv ix" and n: "nodes ix = ?ns"
    and k: "\<exists>k. 5 \<le> k \<and> k < 32 \<and> capacity ix = 2 ^ k \<and> length ?ns \<le> 2 ^ k \<and>
           (5 < k \<longrightarrow> 2 ^ (k - 1) < length ?ns)"
    using add_all_make [of 5 ?ns ix] ix by simp_all
  have 1: "\<exists>k. 5 \<le> k \<and> k < 32 \<and> capacity ix = 2 ^ k \<and> length es \<le> 2 ^ k \<and>
              (5 < k \<longrightarrow> 2 ^ (k - 1) < length es)"
    using k by simp
  have 2: "\<forall>pre p post. es = pre @ p # post \<and> entryName ?m p = name \<and>
              (\<forall>p' \<in> set post. entryName ?m p' \<noteq> name) \<longrightarrow>
              findNode hashN ?m ix name = Some (node_of hashB ?m p) \<and>
              JarIndex_exists hashN ?m ix name"
  proof (intro allI impI)
    fix pre p post
    assume b: "es = pre @ p # post \<and> entryName ?m p = name \<and>
              (\<forall>p' \<in> set post. entryName ?m p' \<noteq> name)"
    have "nodes ix = map (node_of hashB ?m) pre @ node_of hashB ?m p # map (node_of hashB ?m) post"
      using n b by simp
    moreover have "hash (node_of hashB ?m p) = hashN name" using a b by (simp add: node_of_def)
    moreover have "entryName ?m (entry (node_of hashB ?m p)) = name"
      using b by (simp add: node_of_def)
    moreover have "\<forall>n' \<in> set (map (node_of hashB ?m) post). entryName ?m (entry n') \<noteq> name"
      using b by (simp add: node_of_def)
    ultimately have "findNode hashN ?m ix name = Some (node_of hashB ?m p)"
      by (rule findNode_latest [OF inv])
    then show "findNode hashN ?m ix name = Some (node_of hashB ?m p) \<and>
              JarIndex_exists hashN ?m ix name"
      by (simp add: JarIndex_exists_def)
  qed
  have 3: "(\<forall>p \<in> set es. entryName ?m p \<noteq> name) \<longrightarrow>
              findNode hashN ?m ix name = None \<and> \<not> JarIndex_exists hashN ?m ix name"
    using findNode_absent [OF inv, of ?m name hashN] n
    by (simp add: JarIndex_exists_def node_of_def)
  have "yields (JarIterator_next s) (JarIterator (Some ix) 0)
           (map (\<lambda>n. entryName ?m (entry n)) (nodes ix)) (JarIterator (Some ix) (position ix))"
    using jar_iterator_yields [OF inv, of 0 s] by simp
  then have 4: "yields (JarIterator_next s) (JarIterator (Some ix) 0)
           (map (entryName ?m) es) (JarIterator (Some ix) (position ix))"
    using n by (simp add: node_of_def o_def)
  show "\<exists>ix. JarIndex_open hashB ?m r = Some ix \<and>
         nodes ix = map (node_of hashB ?m) es \<and>
         (\<exists>k. 5 \<le> k \<and> k < 32 \<and> capacity ix = 2 ^ k \<and> length es \<le> 2 ^ k \<and>
              (5 < k \<longrightarrow> 2 ^ (k - 1) < length es)) \<and>
         (\<forall>pre p post. es = pre @ p # post \<and> entryName ?m p = name \<and>
              (\<forall>p' \<in> set post. entryName ?m p' \<noteq> name) \<longrightarrow>
              findNode hashN ?m ix name = Some (node_of hashB ?m p) \<and>
              JarIndex_exists hashN ?m ix name) \<and>
         ((\<forall>p \<in> set es. entryName ?m p \<noteq> name) \<longrightarrow>
              findNode hashN ?m ix name = None \<and> \<not> JarIndex_exists hashN ?m ix name) \<and>
         yields (JarIterator_next s) (JarIterator (Some ix) 0)
           (map (entryName ?m) es) (JarIterator (Some ix) (position ix))"
    using o ix n 1 2 3 4 by (intro exI [of _ ix]) simp
qed

theorem findNode_last_entry_witness:
  "add_all (JarIndex_make (2 ^ 0))
     [\<lparr>hash = 0x41, entry = 4200\<rparr>, \<lparr>hash = 0x42, entry = 4247\<rparr>, \<lparr>hash = 0x41, entry = 4294\<rparr>]
     = Some grown_index \<and>
   capacity grown_index = 4 \<and>
   findNode example_hash (env_memory example_env) grown_index [0x41] =
     Some \<lparr>hash = 0x41, entry = 4294\<rparr> \<and>
   findNode example_hash (env_memory example_env) grown_index [0x43] = None \<and>
   yields (JarIterator_next example_env) (JarIterator (Some grown_index) 0)
     [[0x41], [0x42], [0x41]] (JarIterator (Some grown_index) 3) \<and>
   directory_of (env_memory big_env) big_region 10854 big_entries 10854 \<and>
   (\<exists>ix. JarIndex_open example_hash (env_memory big_env) big_region = Some ix \<and>
      capacity ix = 64 \<and>
      findNode example_hash (env_memory big_env) ix [0x41] = Some \<lparr>hash = 0x41, entry = 9489\<rparr> \<and>
      JarIndex_exists example_hash (env_memory big_env) ix [0x41] \<and>
      findNode example_hash (env_memory big_env) ix [0x43] = None \<and>
      \<not> JarIndex_exists example_hash (env_memory big_env) ix [0x43] \<and>
      yields (JarIterator_next big_env) (JarIterator (Some ix) 0)
       [[0x41], [0x62], [0x63], [0x64], [0x65], [0x41],
        [0x67], [0x64, 0x2F, 0x58], [0x68], [0x69], [0x6A], [0x6B],
        [0x6C], [0x6D], [0x6E], [0x6F], [0x70], [0x71],
        [0x72], [0x73], [0x74], [0x75], [0x76], [0x77],
        [0x78], [0x79], [0x7A], [0x30], [0x31], [0x32],
        [0x33], [0x34], [0x35], [0x36]]
       (JarIterator (Some ix) (position ix)))"
proof -
  have m: "env_memory example_env = example_memory" by (simp add: example_env_def)
  let ?ns = "[\<lparr>hash = 0x41, entry = 4200\<rparr>, \<lparr>hash = 0x42, entry = 4247\<rparr>,
      \<lparr>hash = 0x41 :: u32, entry = 4294 :: int\<rparr>]"
  have a: "0 < (32::nat) \<and> add_all (JarIndex_make (2 ^ 0)) ?ns = Some grown_index \<and>
      (0::u8) \<notin> set [0x41]"
    using grown_adds by simp
  have a': "0 < (32::nat) \<and> add_all (JarIndex_make (2 ^ 0)) ?ns = Some grown_index \<and>
      (0::u8) \<notin> set [0x43]"
    using grown_adds by simp
  note t = findNode_last_entry [where ?k0.0 = 0 and ns = ?ns and ix = grown_index
      and s = example_env and hashN = example_hash and name = "[0x41]",
      THEN conjunct1, rule_format, OF a]
  note t' = findNode_last_entry [where ?k0.0 = 0 and ns = ?ns and ix = grown_index
      and s = example_env and hashN = example_hash and name = "[0x43]",
      THEN conjunct1, rule_format, OF a']
  have 1: "findNode example_hash (env_memory example_env) grown_index [0x41] =
     Some \<lparr>hash = 0x41, entry = 4294\<rparr>"
    using t [THEN conjunct1, rule_format,
        of "[\<lparr>hash = 0x41, entry = 4200\<rparr>, \<lparr>hash = 0x42, entry = 4247\<rparr>]"
           "\<lparr>hash = 0x41, entry = 4294\<rparr>" "[]"]
      example_names m by (simp add: example_hash_def)
  have 2: "findNode example_hash (env_memory example_env) grown_index [0x43] = None"
    using t' [THEN conjunct2, THEN conjunct1] example_names m by simp
  have 3: "yields (JarIterator_next example_env) (JarIterator (Some grown_index) 0)
     [[0x41], [0x42], [0x41]] (JarIterator (Some grown_index) 3)"
    using t [THEN conjunct2, THEN conjunct2] example_names m by (simp add: grown_index_def)
  have bm: "env_memory big_env = big_memory" by (simp add: big_env_simps)
  have b: "directory_of (env_memory big_env) big_region 10854 big_entries 10854 \<and>
      length big_entries \<le> 2 ^ 31 \<and> example_hash [0x41] = example_hash [0x41] \<and>
      (0::u8) \<notin> set [0x41]"
    using big_directory by (simp add: bm big_length)
  have b': "directory_of (env_memory big_env) big_region 10854 big_entries 10854 \<and>
      length big_entries \<le> 2 ^ 31 \<and> example_hash [0x43] = example_hash [0x43] \<and>
      (0::u8) \<notin> set [0x43]"
    using big_directory by (simp add: bm big_length)
  note u = findNode_last_entry [where s = big_env and r = big_region and e = 10854
      and es = big_entries and q = 10854 and hashN = example_hash and hashB = example_hash
      and name = "[0x41]", THEN conjunct2, rule_format, OF b]
  note u' = findNode_last_entry [where s = big_env and r = big_region and e = 10854
      and es = big_entries and q = 10854 and hashN = example_hash and hashB = example_hash
      and name = "[0x43]", THEN conjunct2, rule_format, OF b']
  from u obtain ix where o: "JarIndex_open example_hash (env_memory big_env) big_region = Some ix"
    and k: "\<exists>k. 5 \<le> k \<and> k < 32 \<and> capacity ix = 2 ^ k \<and> length big_entries \<le> 2 ^ k \<and>
              (5 < k \<longrightarrow> 2 ^ (k - 1) < length big_entries)"
    and l: "\<forall>pre p post. big_entries = pre @ p # post \<and> entryName (env_memory big_env) p = [0x41] \<and>
              (\<forall>p' \<in> set post. entryName (env_memory big_env) p' \<noteq> [0x41]) \<longrightarrow>
              findNode example_hash (env_memory big_env) ix [0x41] =
                Some (node_of example_hash (env_memory big_env) p) \<and>
              JarIndex_exists example_hash (env_memory big_env) ix [0x41]"
    and y: "yields (JarIterator_next big_env) (JarIterator (Some ix) 0)
           (map (entryName (env_memory big_env)) big_entries) (JarIterator (Some ix) (position ix))"
    by blast
  from u' o have n: "(\<forall>p \<in> set big_entries. entryName (env_memory big_env) p \<noteq> [0x43]) \<longrightarrow>
              findNode example_hash (env_memory big_env) ix [0x43] = None \<and>
              \<not> JarIndex_exists example_hash (env_memory big_env) ix [0x43]"
    by auto
  from k obtain k where k: "5 \<le> k" "capacity ix = 2 ^ k" "34 \<le> (2::nat) ^ k"
    "5 < k \<longrightarrow> (2::nat) ^ (k - 1) < 34"
    by (auto simp: big_length)
  have "k = 6" using k(1,3,4) by (rule capacity_of_34)
  then have 4: "capacity ix = 64" using k(2) by simp
  have split: "big_entries = [9254, 9301, 9348, 9395, 9442] @ 9489 #
      [9536, 9583, 9632, 9679, 9726, 9773, 9820, 9867,
      9914, 9961, 10008, 10055, 10102, 10149, 10196, 10243, 10290, 10337, 10384, 10431,
      10478, 10525, 10572, 10619, 10666, 10713, 10760, 10807]"
    by (simp add: big_entries_def)
  let ?post = "[9536, 9583, 9632, 9679, 9726, 9773, 9820, 9867,
      9914, 9961, 10008, 10055, 10102, 10149, 10196, 10243, 10290, 10337, 10384, 10431,
      10478, 10525, 10572, 10619, 10666, 10713, 10760, 10807 :: int]"
  have "\<forall>p' \<in> set ?post. entryName (env_memory big_env) p' \<noteq> [0x41]"
    by (simp add: bm big_headers)
  then have last: "big_entries = [9254, 9301, 9348, 9395, 9442] @ 9489 # ?post \<and>
      entryName (env_memory big_env) 9489 = [0x41] \<and>
      (\<forall>p' \<in> set ?post. entryName (env_memory big_env) p' \<noteq> [0x41])"
    using split by (simp add: bm big_headers)
  have 5: "findNode example_hash (env_memory big_env) ix [0x41] = Some \<lparr>hash = 0x41, entry = 9489\<rparr> \<and>
      JarIndex_exists example_hash (env_memory big_env) ix [0x41]"
    using l [rule_format, OF last]
    by (simp add: bm big_headers node_of_def example_hash_def)
  have 6: "findNode example_hash (env_memory big_env) ix [0x43] = None \<and>
      \<not> JarIndex_exists example_hash (env_memory big_env) ix [0x43]"
    using n by (simp add: bm big_entries_def big_headers)
  have 7: "yields (JarIterator_next big_env) (JarIterator (Some ix) 0)
       [[0x41], [0x62], [0x63], [0x64], [0x65], [0x41],
        [0x67], [0x64, 0x2F, 0x58], [0x68], [0x69], [0x6A], [0x6B],
        [0x6C], [0x6D], [0x6E], [0x6F], [0x70], [0x71],
        [0x72], [0x73], [0x74], [0x75], [0x76], [0x77],
        [0x78], [0x79], [0x7A], [0x30], [0x31], [0x32],
        [0x33], [0x34], [0x35], [0x36]]
       (JarIterator (Some ix) (position ix))"
    using y big_names by (simp add: bm)
  have d: "directory_of (env_memory big_env) big_region 10854 big_entries 10854"
    using b by simp
  have c: "capacity grown_index = 4" by (simp add: grown_index_def)
  show ?thesis using grown_adds c 1 2 3 d o 4 5 6 7 by blast
qed

section \<open>Finding an entry\<close>

lemma readable_iff: "readable mapped a n \<longleftrightarrow> (\<forall>i < n. mapped (a + int i))"
  by (auto simp: readable_def list_all_iff)

lemma view_readable:
  "readable mapped a n \<Longrightarrow> view mapped m a n = map Some (mem_read m a n)"
  by (simp add: readable_iff view_def mem_read_def)

lemma example_readable:
  assumes "4096 \<le> a" "a + int n \<le> 4363"
  shows "readable example_mapped a n"
  using assms by (auto simp: readable_iff example_mapped_def)







lemma example_findNode_B:
  "findNode example_hash example_memory example_index [0x42] = Some \<lparr>hash = 0x42, entry = 4247\<rparr>"
  using example_header2
  by (simp add: findNode_def example_index_def example_hash_def matches_name entryName_def)


lemma length_stray_archive: "length stray_archive = 267"
  by (simp add: stray_archive_def length_example_archive)











text \<open>
  C4, as the code has it. For a name that \<^verbatim>\<open>findNode\<close> resolves to an entry of compression
  method 8 (deflated), \<^verbatim>\<open>find\<close> reads the two lengths of the local header (a fault when they
  are not mapped) and gives \<^verbatim>\<open>inflate\<close> the compressed-size bytes of the entry's data as
  input and a buffer of the declared uncompressed size, in raw mode (window bits -15)
  with \<^verbatim>\<open>Z_FINISH\<close>. It returns the \<^verbatim>\<open>DataRegion\<close> of the declared uncompressed size when
  \<^verbatim>\<open>inflateInit2\<close> returns \<^verbatim>\<open>Z_OK\<close> and \<^verbatim>\<open>inflate\<close> returns \<^verbatim>\<open>Z_STREAM_END\<close>, and aborts on any
  other return code; the counts of input and of room that \<^verbatim>\<open>inflate\<close> leaves are not read.
  For a method other than 0 and 8 it aborts. For no entry that \<^verbatim>\<open>findNode\<close> resolves does it
  return the empty result.
\<close>

theorem find_deflated:
  assumes "findNode hashN m ix name = Some n"
  shows "(compressionMethod m (entry n) = 8 \<longrightarrow>
      JarIndex_find z hashN mapped m ix name start =
        (if \<not> readable mapped (start + uint (localHeaderOffset m (entry n)) + 26) 4
         then Inl Fault
         else if inflateInit2 z (- 15) \<noteq> 0 then Inl Abort
         else (case inflate z
                 (view mapped m (fileData m (start + uint (localHeaderOffset m (entry n))))
                    (unat (compressedSize m (entry n))))
                 (unat (uncompressedSize m (entry n))) 4 of
                 None \<Rightarrow> Inl Fault
               | Some r \<Rightarrow>
                   if ret r = 1
                   then Inr (Some (DataRegion (unat (uncompressedSize m (entry n))) (written r)))
                   else Inl Abort))) \<and>
    (compressionMethod m (entry n) \<noteq> 0 \<and> compressionMethod m (entry n) \<noteq> 8 \<longrightarrow>
      JarIndex_find z hashN mapped m ix name start = Inl Abort) \<and>
    JarIndex_find z hashN mapped m ix name start \<noteq> Inr None"
  using assms
  by (simp add: JarIndex_find_def Let_def Stored_def Deflated_def Z_OK_def Z_STREAM_END_def
        Z_FINISH_def split: option.splits)

lemma example_entry2:
  "compressionMethod example_memory 4247 = 8 \<and> localHeaderOffset example_memory 4247 = 33 \<and>
   compressedSize example_memory 4247 = 7 \<and> uncompressedSize example_memory 4247 = 5 \<and>
   fileData example_memory 4129 = 4160 \<and>
   mem_read example_memory 4160 7 = [0xCB, 0x48, 0xCD, 0xC9, 0xC9, 0x07, 0x00]"
  by (simp add: field_defs example_memory_def example_archive_def)

lemma example_view_B:
  "view example_mapped example_memory 4160 7 =
     map Some [0xCB, 0x48, 0xCD, 0xC9, 0xC9, 0x07, 0x00]"
proof -
  have "readable example_mapped 4160 7" by (rule example_readable) simp_all
  then show ?thesis using example_entry2 by (simp add: view_readable)
qed

lemma example_readable_B: "readable example_mapped (4096 + 33 + 26) 4"
  by (rule example_readable) simp_all

theorem find_deflated_witness:
  "findNode example_hash example_memory example_index [0x42] = Some \<lparr>hash = 0x42, entry = 4247\<rparr> \<and>
   compressionMethod example_memory 4247 = 8 \<and>
   JarIndex_find example_codec example_hash example_mapped example_memory example_index [0x42] 4096 =
     Inr (Some (DataRegion 5 [0x68, 0x65, 0x6C, 0x6C, 0x6F]))"
  using find_deflated [OF example_findNode_B, of example_codec example_mapped 4096, THEN conjunct1]
    example_findNode_B example_entry2 example_view_B example_readable_B
  by (simp add: example_codec_def)

lemma length_damaged_archive: "length damaged_archive = 267"
  by (simp add: damaged_archive_def length_example_archive)

lemma damaged_memory_eq:
  "damaged_memory a =
     (if a = 4271 then 0xF4 else if a = 4272 then 0x01 else if a = 4304 then 0x0C
      else example_memory a)"
proof (cases "4096 \<le> a \<and> a < 4363")
  case False
  then show ?thesis
    by (auto simp: damaged_memory_def example_memory_def)
next
  case True
  then have n: "nat (a - 4096) < 267" by auto
  have "nat (a - 4096) = 175 \<longleftrightarrow> a = 4271" "nat (a - 4096) = 176 \<longleftrightarrow> a = 4272"
    "nat (a - 4096) = 208 \<longleftrightarrow> a = 4304"
    using True by auto
  then show ?thesis
    using True n
    by (simp add: damaged_memory_def example_memory_def length_example_archive
          damaged_archive_def nth_list_update)
qed

lemma damaged_eocd:
  "signature damaged_memory 4341 = 0x06054b50 \<and>
   centralDirectoryOffset damaged_memory 4341 = 104"
  by (simp add: field_defs damaged_memory_eq example_memory_def example_archive_def)

lemma damaged_header1:
  "signature damaged_memory 4200 = 0x02014b50 \<and> endOfEntry damaged_memory 4200 = 4247 \<and>
   mem_read damaged_memory (fileName 4200) (unat (fileNameLength damaged_memory 4200)) = [0x41]"
  by (simp add: field_defs damaged_memory_eq example_memory_def example_archive_def)

lemma damaged_header2:
  "signature damaged_memory 4247 = 0x02014b50 \<and> endOfEntry damaged_memory 4247 = 4294 \<and>
   mem_read damaged_memory (fileName 4247) (unat (fileNameLength damaged_memory 4247)) = [0x42]"
  by (simp add: field_defs damaged_memory_eq example_memory_def example_archive_def)

lemma damaged_header3:
  "signature damaged_memory 4294 = 0x02014b50 \<and> endOfEntry damaged_memory 4294 = 4341 \<and>
   mem_read damaged_memory (fileName 4294) (unat (fileNameLength damaged_memory 4294)) = [0x41]"
  by (simp add: field_defs damaged_memory_eq example_memory_def example_archive_def)

lemma damaged_walk:
  "walk example_hash damaged_memory 4363 (JarIndex_make 32) 4200 = Some (Returned example_index)"
  apply (subst walk.simps, simp add: damaged_header1 add_eval)
  apply (subst walk.simps, simp add: damaged_header2 add_eval)
  apply (subst walk.simps, simp add: damaged_header3 add_eval)
  apply (subst walk.simps, simp add: damaged_eocd)
  apply (simp add: example_index_def update_again)
  done

lemma damaged_open:
  "JarIndex_open example_hash damaged_memory example_region = Some example_index"
  apply (simp add: JarIndex_open_def example_region_def Let_def)
  apply (subst scan.simps)
  apply (simp add: damaged_eocd damaged_walk)
  done

lemma damaged_findNode_A:
  "findNode example_hash damaged_memory example_index [0x41] = Some \<lparr>hash = 0x41, entry = 4294\<rparr>"
  using damaged_header3
  by (simp add: findNode_def example_index_def example_hash_def matches_name entryName_def)

lemma damaged_findNode_B:
  "findNode example_hash damaged_memory example_index [0x42] = Some \<lparr>hash = 0x42, entry = 4247\<rparr>"
  using damaged_header2
  by (simp add: findNode_def example_index_def example_hash_def matches_name entryName_def)

lemma damaged_entry2:
  "compressionMethod damaged_memory 4247 = 8 \<and> localHeaderOffset damaged_memory 4247 = 33 \<and>
   compressedSize damaged_memory 4247 = 7 \<and> uncompressedSize damaged_memory 4247 = 500 \<and>
   fileData damaged_memory 4129 = 4160 \<and>
   mem_read damaged_memory 4160 7 = [0xCB, 0x48, 0xCD, 0xC9, 0xC9, 0x07, 0x00]"
  by (simp add: field_defs damaged_memory_eq example_memory_def example_archive_def)

lemma damaged_entry3: "compressionMethod damaged_memory 4294 = 12"
  by (simp add: field_defs damaged_memory_eq example_memory_def example_archive_def)

lemma damaged_view_B:
  "view example_mapped damaged_memory 4160 7 =
     map Some [0xCB, 0x48, 0xCD, 0xC9, 0xC9, 0x07, 0x00]"
proof -
  have "readable example_mapped 4160 7" by (rule example_readable) simp_all
  then show ?thesis using damaged_entry2 by (simp add: view_readable)
qed

text \<open>
  C4 as the claim states it fails: entry \<^verbatim>\<open>B\<close> of the changed archive declares 500 bytes,
  \<^verbatim>\<open>inflate\<close> ends the stream after writing five and leaves room for 495, and \<^verbatim>\<open>find\<close>
  returns the region of length 500 instead of aborting.
\<close>

theorem find_deflated_counterexample:
  "JarIndex_open example_hash damaged_memory example_region = Some example_index \<and>
   uncompressedSize damaged_memory 4247 = 500 \<and>
   inflate example_codec (view example_mapped damaged_memory 4160 7) 500 Z_FINISH =
     Some \<lparr>ret = Z_STREAM_END, written = [0x68, 0x65, 0x6C, 0x6C, 0x6F],
           avail_in = 0, avail_out = 495\<rparr> \<and>
   JarIndex_find example_codec example_hash example_mapped damaged_memory example_index [0x42] 4096 =
     Inr (Some (DataRegion 500 [0x68, 0x65, 0x6C, 0x6C, 0x6F]))"
  using damaged_open damaged_findNode_B damaged_entry2 damaged_view_B example_readable_B
  by (simp add: JarIndex_find_def Let_def Stored_def Deflated_def Z_OK_def Z_STREAM_END_def
        Z_FINISH_def example_codec_def)

section \<open>Elements and the finder\<close>

lemma strip_slashes_replicate: "strip_slashes (replicate k slash @ name) = strip_slashes name"
  by (induction k) (simp_all add: strip_slashes_def)

lemma strip_slashes_rest:
  "rest = [] \<or> hd rest \<noteq> 0x2F \<Longrightarrow> strip_slashes (replicate k 0x2F @ rest) = rest"
  by (induction k) (auto simp: strip_slashes_def slash_def dropWhile_eq_self_iff)

lemma bytes_simps [simp]: "bytes [] = []" "bytes (c # cs) = of_char c # bytes cs"
  by (simp_all add: bytes_def)

lemma example_env_simps:
  "env_memory example_env = example_memory"
  "env_mapped example_env = example_mapped"
  "env_hashN example_env = example_hash"
  "env_hashB example_env = example_hash"
  "env_zlib example_env = example_codec"
  by (simp_all add: example_env_def)

lemma example_init: "init example_env example_jar = Inr example_jar_loaded"
  by (simp add: example_jar_def example_jar_loaded_def example_env_def example_open)

lemma example_init_loaded: "init example_env example_jar_loaded = Inr example_jar_loaded"
  by (simp add: example_jar_loaded_def)

lemma example_find_B:
  "JarIndex_find example_codec example_hash example_mapped example_memory example_index [0x42] 4096 =
     Inr (Some (DataRegion 5 [0x68, 0x65, 0x6C, 0x6C, 0x6F]))"
  using example_findNode_B example_entry2 example_view_B example_readable_B
  by (simp add: JarIndex_find_def Let_def Stored_def Deflated_def Z_OK_def Z_STREAM_END_def
        Z_FINISH_def example_codec_def)

lemma example_jar_find_B:
  "Element_find example_env example_jar [slash, 0x42] =
     Inr (Some (DataRegion 5 [0x68, 0x65, 0x6C, 0x6C, 0x6F]), example_jar_loaded)"
  using example_init example_find_B
  by (simp add: example_jar_def example_jar_loaded_def JarElement_find_def strip_slashes_def
        example_env_simps example_region_def slash_def)

lemma init_keeps:
  assumes "init s e = Inr e'" "archive_backed e" "region_with_index e"
  shows "archive_backed e' \<and> region_with_index e'"
  using assms
  by (cases e) (auto simp: region_with_index_def split: if_splits option.splits)

lemma JarIndex_find_cases:
  "(findNode hashN m ix name = None \<and> JarIndex_find z hashN mapped m ix name start = Inr None) \<or>
   (findNode hashN m ix name \<noteq> None \<and>
      ((\<exists>r. JarIndex_find z hashN mapped m ix name start = Inr (Some r)) \<or>
       JarIndex_find z hashN mapped m ix name start = Inl Abort \<or>
       JarIndex_find z hashN mapped m ix name start = Inl Fault))"
  by (cases "findNode hashN m ix name")
    (auto simp: JarIndex_find_def Let_def split: option.splits)

lemma JarElement_find_cases:
  assumes "region_with_index e"
  shows "(\<not> JarElement_exists s e name \<and> JarElement_find s e name = Inr None) \<or>
   (JarElement_exists s e name \<and>
      ((\<exists>r. JarElement_find s e name = Inr (Some r)) \<or>
       JarElement_find s e name = Inl (Failed Abort) \<or>
       JarElement_find s e name = Inl (Failed Fault)))"
proof (cases "element_index e")
  case None
  then show ?thesis by (simp add: JarElement_exists_def JarElement_find_def)
next
  case (Some ix)
  then obtain r where r: "element_region e = Some r"
    using assms by (auto simp: region_with_index_def)
  show ?thesis
    using JarIndex_find_cases [of "env_hashN s" "env_memory s" ix name "env_zlib s"
        "env_mapped s" "span_start r"] Some r
    by (auto simp: JarElement_exists_def JarElement_find_def JarIndex_exists_def)
qed

lemma archive_find_unfold:
  "archive_backed e \<Longrightarrow> Element_find s e name =
     (case init s e of Inl f \<Rightarrow> Inl f
      | Inr e' \<Rightarrow> (case JarElement_find s e' (strip_slashes name) of
                     Inl f \<Rightarrow> Inl f | Inr r \<Rightarrow> Inr (r, e')))"
  by (cases e) simp_all

lemma archive_exists_unfold:
  "archive_backed e \<Longrightarrow> Element_exists s e name =
     (case init s e of Inl f \<Rightarrow> Inl f
      | Inr e' \<Rightarrow> Inr (JarElement_exists s e' (strip_slashes name), e'))"
  by (cases e) simp_all

text \<open>
  C8. For a \<^verbatim>\<open>JarElement\<close> or a \<^verbatim>\<open>BuiltinElement\<close>, and a name made of any number of \<^verbatim>\<open>/\<close>
  followed by \<^verbatim>\<open>rest\<close>, which does not begin with \<^verbatim>\<open>/\<close>: after \<^verbatim>\<open>init\<close>, \<^verbatim>\<open>find\<close> is the \<^verbatim>\<open>find\<close> of the
  index on \<^verbatim>\<open>rest\<close> (with the \<^verbatim>\<open>/\<close> inside it) from the start of the region, and \<^verbatim>\<open>exists\<close> is the
  \<^verbatim>\<open>exists\<close> of the index on \<^verbatim>\<open>rest\<close>; without an index they are null and false. So \<^verbatim>\<open>find\<close> and
  \<^verbatim>\<open>exists\<close> give the same result, and leave the element in the same state, for a name and
  for the name with any number of \<^verbatim>\<open>/\<close> put before it.
\<close>

theorem leading_slashes:
  assumes "archive_backed e" and "rest = [] \<or> hd rest \<noteq> 0x2F"
  shows "Element_find s e (replicate k 0x2F @ rest) =
      (case init s e of
         Inl f \<Rightarrow> Inl f
       | Inr e' \<Rightarrow>
           (case element_index e' of
              None \<Rightarrow> Inr (None, e')
            | Some index \<Rightarrow>
                (case element_region e' of
                   None \<Rightarrow> Inl (Failed NullDereference)
                 | Some region \<Rightarrow>
                     (case JarIndex_find (env_zlib s) (env_hashN s) (env_mapped s) (env_memory s)
                             index rest (span_start region) of
                        Inl err \<Rightarrow> Inl (Failed err)
                      | Inr x \<Rightarrow> Inr (x, e'))))) \<and>
    Element_exists s e (replicate k 0x2F @ rest) =
      (case init s e of
         Inl f \<Rightarrow> Inl f
       | Inr e' \<Rightarrow>
           Inr (case element_index e' of
                  None \<Rightarrow> False
                | Some index \<Rightarrow> JarIndex_exists (env_hashN s) (env_memory s) index rest, e')) \<and>
    Element_find s e (replicate k 0x2F @ name) = Element_find s e name \<and>
    Element_exists s e (replicate k 0x2F @ name) = Element_exists s e name"
proof (intro conjI)
  have r: "strip_slashes (replicate k 0x2F @ rest) = rest"
    using assms(2) by (rule strip_slashes_rest)
  show "Element_find s e (replicate k 0x2F @ rest) =
      (case init s e of
         Inl f \<Rightarrow> Inl f
       | Inr e' \<Rightarrow>
           (case element_index e' of
              None \<Rightarrow> Inr (None, e')
            | Some index \<Rightarrow>
                (case element_region e' of
                   None \<Rightarrow> Inl (Failed NullDereference)
                 | Some region \<Rightarrow>
                     (case JarIndex_find (env_zlib s) (env_hashN s) (env_mapped s) (env_memory s)
                             index rest (span_start region) of
                        Inl err \<Rightarrow> Inl (Failed err)
                      | Inr x \<Rightarrow> Inr (x, e')))))"
    using assms(1)
    by (simp add: archive_find_unfold r JarElement_find_def split: sum.splits option.splits)
  show "Element_exists s e (replicate k 0x2F @ rest) =
      (case init s e of
         Inl f \<Rightarrow> Inl f
       | Inr e' \<Rightarrow>
           Inr (case element_index e' of
                  None \<Rightarrow> False
                | Some index \<Rightarrow> JarIndex_exists (env_hashN s) (env_memory s) index rest, e'))"
    using assms(1)
    by (simp add: archive_exists_unfold r JarElement_exists_def split: sum.splits option.splits)
  have n: "strip_slashes (replicate k 0x2F @ name) = strip_slashes name"
    using strip_slashes_replicate [of k name] by (simp add: slash_def)
  show "Element_find s e (replicate k 0x2F @ name) = Element_find s e name"
    by (simp only: archive_find_unfold [OF assms(1)] n)
  show "Element_exists s e (replicate k 0x2F @ name) = Element_exists s e name"
    by (simp only: archive_exists_unfold [OF assms(1)] n)
qed

lemma big_findNode_dX:
  "findNode example_hash big_memory big_index [0x64, 0x2F, 0x58] =
     Some \<lparr>hash = example_hash [0x64, 0x2F, 0x58], entry = 9583\<rparr>"
proof -
  let ?post = "[9632, 9679, 9726, 9773, 9820, 9867,
      9914, 9961, 10008, 10055, 10102, 10149, 10196, 10243, 10290, 10337, 10384, 10431,
      10478, 10525, 10572, 10619, 10666, 10713, 10760, 10807 :: int]"
  let ?pre = "[9254, 9301, 9348, 9395, 9442, 9489, 9536 :: int]"
  let ?n = "\<lparr>hash = example_hash [0x64, 0x2F, 0x58], entry = 9583 :: int\<rparr>"
  have n: "node_of example_hash big_memory 9583 = ?n"
    by (simp add: node_of_def big_headers)
  have "nodes big_index = map (node_of example_hash big_memory) ?pre @ ?n #
      map (node_of example_hash big_memory) ?post"
    by (simp add: big_open(3) big_entries_def n)
  moreover have "hash ?n = example_hash [0x64, 0x2F, 0x58]" by simp
  moreover have "entryName big_memory (entry ?n) = [0x64, 0x2F, 0x58]"
    by (simp add: big_headers)
  moreover have "\<forall>n' \<in> set (map (node_of example_hash big_memory) ?post).
      entryName big_memory (entry n') \<noteq> [0x64, 0x2F, 0x58]"
    by (simp add: node_of_def big_headers)
  ultimately show ?thesis by (rule findNode_latest [OF big_open(2)])
qed

lemma big_findNode_dX_joined:
  "findNode example_hash big_memory big_index [0x64, 0x58] = None"
proof (rule findNode_absent [OF big_open(2)])
  show "\<forall>n \<in> set (nodes big_index). entryName big_memory (entry n) \<noteq> [0x64, 0x58]"
    by (simp add: big_open(3) big_entries_def node_of_def big_headers)
qed

lemma big_entry7:
  "compressionMethod big_memory 9583 = 0 \<and> localHeaderOffset big_memory 9583 = 221 \<and>
   compressedSize big_memory 9583 = 2 \<and>
   localFileNameLength big_memory 8413 = 3 \<and> localExtraFieldLength big_memory 8413 = 0 \<and>
   mem_read big_memory 8446 2 = [0x6F, 0x6B]"
  by (simp add: field_defs big_defs)

lemma big_readable:
  assumes "8192 \<le> a" "a + int n \<le> 10876"
  shows "readable big_mapped a n"
  using assms by (auto simp: readable_iff big_mapped_def)

lemma big_find_dX:
  "JarIndex_find example_codec example_hash big_mapped big_memory big_index [0x64, 0x2F, 0x58] 8192 =
     Inr (Some (PointerRegion 8446 2))"
proof -
  have "readable big_mapped (8192 + 221 + 26) 4" by (rule big_readable) simp_all
  then show ?thesis
    using big_findNode_dX big_entry7
    by (simp add: JarIndex_find_def Let_def Stored_def fileData_def LocalHeaderSize_def)
qed

lemma big_init: "init big_env big_jar = Inr big_jar_loaded"
  by (simp add: big_jar_def big_jar_loaded_def big_env_def example_env_def big_open)

theorem leading_slashes_witness:
  "archive_backed big_jar \<and>
   Element_find big_env big_jar (bytes ''//d/X'') =
     Inr (Some (PointerRegion 8446 2), big_jar_loaded) \<and>
   mem_read big_memory 8446 2 = bytes ''ok'' \<and>
   Element_exists big_env big_jar (bytes ''//d/X'') = Inr (True, big_jar_loaded) \<and>
   Element_find big_env big_jar (bytes ''d/X'') =
     Inr (Some (PointerRegion 8446 2), big_jar_loaded) \<and>
   Element_exists big_env big_jar (bytes ''d/X'') = Inr (True, big_jar_loaded) \<and>
   Element_find big_env big_jar (bytes ''dX'') = Inr (None, big_jar_loaded) \<and>
   Element_exists big_env big_jar (bytes ''dX'') = Inr (False, big_jar_loaded)"
proof -
  have a: "archive_backed big_jar" by (simp add: big_jar_def)
  have r: "bytes ''d/X'' = [] \<or> hd (bytes ''d/X'') \<noteq> 0x2F" by simp
  have r': "bytes ''dX'' = [] \<or> hd (bytes ''dX'') \<noteq> 0x2F" by simp
  note t = leading_slashes [OF a r, of big_env "Suc (Suc 0)" "bytes ''d/X''"]
  note t' = leading_slashes [OF a r', of big_env 0 "bytes ''dX''"]
  have 1: "Element_find big_env big_jar (bytes ''//d/X'') =
     Inr (Some (PointerRegion 8446 2), big_jar_loaded)"
    using t [THEN conjunct1] big_init big_find_dX
    by (simp add: big_jar_loaded_def big_env_simps big_region_def)
  have 2: "Element_exists big_env big_jar (bytes ''//d/X'') = Inr (True, big_jar_loaded)"
    using t [THEN conjunct2, THEN conjunct1] big_init big_findNode_dX
    by (simp add: big_jar_loaded_def big_env_simps JarIndex_exists_def)
  have 3: "Element_find big_env big_jar (bytes ''d/X'') =
     Inr (Some (PointerRegion 8446 2), big_jar_loaded)"
    using t [THEN conjunct2, THEN conjunct2, THEN conjunct1] 1 by simp
  have 4: "Element_exists big_env big_jar (bytes ''d/X'') = Inr (True, big_jar_loaded)"
    using t [THEN conjunct2, THEN conjunct2, THEN conjunct2] 2 by simp
  have 5: "Element_find big_env big_jar (bytes ''dX'') = Inr (None, big_jar_loaded)"
    using t' [THEN conjunct1] big_init big_findNode_dX_joined
    by (simp add: big_jar_loaded_def big_env_simps big_region_def JarIndex_find_def)
  have 6: "Element_exists big_env big_jar (bytes ''dX'') = Inr (False, big_jar_loaded)"
    using t' [THEN conjunct2, THEN conjunct1] big_init big_findNode_dX_joined
    by (simp add: big_jar_loaded_def big_env_simps JarIndex_exists_def)
  have 7: "mem_read big_memory 8446 2 = bytes ''ok''" using big_entry7 by simp
  show ?thesis using a 1 2 3 4 5 6 7 by simp
qed

text \<open>
  C2, as the code has it. For a \<^verbatim>\<open>DirectoryElement\<close>, \<^verbatim>\<open>exists\<close> is true exactly when
  \<^verbatim>\<open>identify\<close> does not say that the path is missing, and \<^verbatim>\<open>find\<close> is non-empty exactly when
  \<^verbatim>\<open>map\<close> succeeds on it. For a \<^verbatim>\<open>JarElement\<close> or a \<^verbatim>\<open>BuiltinElement\<close> whose region is set
  whenever its index is: when \<^verbatim>\<open>exists\<close> returns false, \<^verbatim>\<open>find\<close> returns the empty result;
  when \<^verbatim>\<open>exists\<close> returns true, \<^verbatim>\<open>find\<close> returns a region, aborts, or faults on a local header
  or on data that are not mapped; both leave the element in the same state, and when
  \<^verbatim>\<open>init\<close> does not return, neither of them does.
\<close>

theorem exists_and_find:
  "Element_exists s (DirectoryElement d) name =
     Inr (env_identify s (append_path d name) \<noteq> TypeDoesNotExist, DirectoryElement d) \<and>
   Element_find s (DirectoryElement d) name =
     Inr (map_option SystemRegion (env_map s (append_path d name)), DirectoryElement d) \<and>
   (archive_backed e \<and> region_with_index e \<longrightarrow>
     (case Element_exists s e name of
        Inl f \<Rightarrow> Element_find s e name = Inl f
      | Inr (b, e') \<Rightarrow>
          if b then (\<exists>r. Element_find s e name = Inr (Some r, e')) \<or>
                    Element_find s e name = Inl (Failed Abort) \<or>
                    Element_find s e name = Inl (Failed Fault)
          else Element_find s e name = Inr (None, e')))"
proof (intro conjI impI)
  show "Element_exists s (DirectoryElement d) name =
     Inr (env_identify s (append_path d name) \<noteq> TypeDoesNotExist, DirectoryElement d)"
    by simp
  show "Element_find s (DirectoryElement d) name =
     Inr (map_option SystemRegion (env_map s (append_path d name)), DirectoryElement d)"
    by (simp split: option.splits)
next
  assume a: "archive_backed e \<and> region_with_index e"
  show "case Element_exists s e name of
        Inl f \<Rightarrow> Element_find s e name = Inl f
      | Inr (b, e') \<Rightarrow>
          if b then (\<exists>r. Element_find s e name = Inr (Some r, e')) \<or>
                    Element_find s e name = Inl (Failed Abort) \<or>
                    Element_find s e name = Inl (Failed Fault)
          else Element_find s e name = Inr (None, e')"
  proof (cases "init s e")
    case (Inl f)
    then show ?thesis using a by (simp add: archive_find_unfold archive_exists_unfold)
  next
    case (Inr e')
    then have "region_with_index e'" using a init_keeps by blast
    from JarElement_find_cases [OF this, of s "strip_slashes name"] show ?thesis
      using a Inr by (auto simp: archive_find_unfold archive_exists_unfold)
  qed
qed

theorem exists_and_find_witness:
  "archive_backed example_jar \<and> region_with_index example_jar \<and>
   Element_exists example_env example_jar [0x42] = Inr (True, example_jar_loaded) \<and>
   (\<exists>r. Element_find example_env example_jar [0x42] = Inr (Some r, example_jar_loaded)) \<and>
   Element_exists example_env example_jar [0x43] = Inr (False, example_jar_loaded) \<and>
   Element_find example_env example_jar [0x43] = Inr (None, example_jar_loaded)"
proof -
  have a: "archive_backed example_jar \<and> region_with_index example_jar"
    by (simp add: example_jar_def region_with_index_def)
  have f: "findNode example_hash example_memory example_index [0x43] = None"
    by (simp add: findNode_def example_index_def example_hash_def)
  have b: "Element_exists example_env example_jar [0x42] = Inr (True, example_jar_loaded)"
    using example_init example_findNode_B
    by (simp add: example_jar_def example_jar_loaded_def JarElement_exists_def
          JarIndex_exists_def strip_slashes_def slash_def example_env_simps)
  have c: "Element_exists example_env example_jar [0x43] = Inr (False, example_jar_loaded)"
    using example_init f
    by (simp add: example_jar_def example_jar_loaded_def JarElement_exists_def
          JarIndex_exists_def strip_slashes_def slash_def example_env_simps)
  have nf: "Element_find example_env example_jar [0x42] \<noteq> Inl (Failed Abort) \<and>
      Element_find example_env example_jar [0x42] \<noteq> Inl (Failed Fault)"
    using example_init example_find_B
    by (simp add: example_jar_def example_jar_loaded_def JarElement_find_def strip_slashes_def
        example_env_simps example_region_def slash_def)
  from exists_and_find [where s = example_env and e = example_jar and name = "[0x42]",
      THEN conjunct2, THEN conjunct2]
    a b nf
  have 1: "\<exists>r. Element_find example_env example_jar [0x42] = Inr (Some r, example_jar_loaded)"
    by simp
  from exists_and_find [where s = example_env and e = example_jar and name = "[0x43]",
      THEN conjunct2, THEN conjunct2]
    a c
  have 2: "Element_find example_env example_jar [0x43] = Inr (None, example_jar_loaded)"
    by simp
  show ?thesis using a b c 1 2 by blast
qed

text \<open>
  C2 as the claim states it fails. In the example the name \<^verbatim>\<open>pkg\<close> of the directory element
  is a directory: \<^verbatim>\<open>exists\<close> returns true and \<^verbatim>\<open>find\<close> returns the empty result. In the
  changed archive the second entry \<^verbatim>\<open>A\<close> has compression method 12: \<^verbatim>\<open>exists\<close> returns true
  and \<^verbatim>\<open>find\<close> aborts.
\<close>

theorem exists_and_find_counterexample:
  "Element_exists example_env example_cp (bytes ''pkg'') = Inr (True, example_cp) \<and>
   Element_find example_env example_cp (bytes ''pkg'') = Inr (None, example_cp) \<and>
   Element_exists damaged_env example_jar [0x41] = Inr (True, example_jar_loaded) \<and>
   Element_find damaged_env example_jar [0x41] = Inl (Failed Abort)"
proof -
  have i: "init damaged_env example_jar = Inr example_jar_loaded"
    by (simp add: example_jar_def example_jar_loaded_def damaged_env_def example_env_def
          damaged_open)
  have 1: "Element_exists example_env example_cp (bytes ''pkg'') = Inr (True, example_cp)"
    by (simp add: example_cp_def example_env_def append_path_def slash_def)
  have 2: "Element_find example_env example_cp (bytes ''pkg'') = Inr (None, example_cp)"
    by (simp add: example_cp_def example_env_def append_path_def slash_def)
  have 3: "Element_exists damaged_env example_jar [0x41] = Inr (True, example_jar_loaded)"
    using i damaged_findNode_A
    by (simp add: example_jar_def example_jar_loaded_def JarElement_exists_def
          JarIndex_exists_def strip_slashes_def slash_def damaged_env_def example_env_def)
  have 4: "Element_find damaged_env example_jar [0x41] = Inl (Failed Abort)"
    using i damaged_findNode_A damaged_entry3
    by (simp add: example_jar_def example_jar_loaded_def JarElement_find_def JarIndex_find_def
          Stored_def Deflated_def strip_slashes_def slash_def damaged_env_def example_env_def)
  show ?thesis using 1 2 3 4 by simp
qed

section \<open>The finder: first match\<close>

lemma finder_find_skip:
  assumes "list_all2 (\<lambda>x x'. Element_find s x name = Inr (None, x')) pre pre'"
  shows "MyFinder_find s (pre @ rest) name =
     (case MyFinder_find s rest name of Inl f \<Rightarrow> Inl f | Inr (r, rest') \<Rightarrow> Inr (r, pre' @ rest'))"
  using assms
  by (induction rule: list_all2_induct) (auto split: sum.splits prod.splits option.splits)

lemma finder_exists_skip:
  assumes "list_all2 (\<lambda>x x'. Element_exists s x name = Inr (False, x')) pre pre'"
  shows "MyFinder_exists s (pre @ rest) name =
     (case MyFinder_exists s rest name of Inl f \<Rightarrow> Inl f | Inr (b, rest') \<Rightarrow> Inr (b, pre' @ rest'))"
  using assms
  by (induction rule: list_all2_induct) (auto split: sum.splits prod.splits bool.splits)

lemma finder_find_first:
  "MyFinder_find s es name = Inr (Some r, es') \<Longrightarrow>
   \<exists>pre e post pre' e'. es = pre @ e # post \<and> es' = pre' @ e' # post \<and>
     list_all2 (\<lambda>x x'. Element_find s x name = Inr (None, x')) pre pre' \<and>
     Element_find s e name = Inr (Some r, e')"
proof (induction es arbitrary: es')
  case Nil
  then show ?case by simp
next
  case (Cons x xs)
  show ?case
  proof (cases "Element_find s x name")
    case (Inl f)
    then show ?thesis using Cons.prems by simp
  next
    case (Inr p)
    obtain v x' where p: "p = (v, x')" by (cases p)
    show ?thesis
    proof (cases v)
      case (Some r')
      then have "r' = r" "es' = x' # xs" using Cons.prems Inr p by simp_all
      then have "x # xs = [] @ x # xs \<and> es' = [] @ x' # xs \<and>
          list_all2 (\<lambda>x x'. Element_find s x name = Inr (None, x')) [] [] \<and>
          Element_find s x name = Inr (Some r, x')"
        using Inr p Some by simp
      then show ?thesis by blast
    next
      case None
      then obtain xs' where t: "MyFinder_find s xs name = Inr (Some r, xs')" and e: "es' = x' # xs'"
        using Cons.prems Inr p by (auto split: sum.splits prod.splits)
      from Cons.IH [OF t] obtain pre e post pre' e' where
        h: "xs = pre @ e # post" "xs' = pre' @ e' # post"
          "list_all2 (\<lambda>x x'. Element_find s x name = Inr (None, x')) pre pre'"
          "Element_find s e name = Inr (Some r, e')" by blast
      have "x # xs = (x # pre) @ e # post \<and> es' = (x' # pre') @ e' # post \<and>
          list_all2 (\<lambda>x x'. Element_find s x name = Inr (None, x')) (x # pre) (x' # pre') \<and>
          Element_find s e name = Inr (Some r, e')"
        using h e Inr p None by simp
      then show ?thesis by blast
    qed
  qed
qed

lemma finder_exists_first:
  "MyFinder_exists s es name = Inr (True, es') \<Longrightarrow>
   \<exists>pre e post pre' e'. es = pre @ e # post \<and> es' = pre' @ e' # post \<and>
     list_all2 (\<lambda>x x'. Element_exists s x name = Inr (False, x')) pre pre' \<and>
     Element_exists s e name = Inr (True, e')"
proof (induction es arbitrary: es')
  case Nil
  then show ?case by simp
next
  case (Cons x xs)
  show ?case
  proof (cases "Element_exists s x name")
    case (Inl f)
    then show ?thesis using Cons.prems by simp
  next
    case (Inr p)
    obtain v x' where p: "p = (v, x')" by (cases p)
    show ?thesis
    proof (cases v)
      case True
      then have "es' = x' # xs" using Cons.prems Inr p by simp
      then have "x # xs = [] @ x # xs \<and> es' = [] @ x' # xs \<and>
          list_all2 (\<lambda>x x'. Element_exists s x name = Inr (False, x')) [] [] \<and>
          Element_exists s x name = Inr (True, x')"
        using Inr p True by simp
      then show ?thesis by blast
    next
      case False
      then obtain xs' where t: "MyFinder_exists s xs name = Inr (True, xs')" and e: "es' = x' # xs'"
        using Cons.prems Inr p by (auto split: sum.splits prod.splits)
      from Cons.IH [OF t] obtain pre e post pre' e' where
        h: "xs = pre @ e # post" "xs' = pre' @ e' # post"
          "list_all2 (\<lambda>x x'. Element_exists s x name = Inr (False, x')) pre pre'"
          "Element_exists s e name = Inr (True, e')" by blast
      have "x # xs = (x # pre) @ e # post \<and> es' = (x' # pre') @ e' # post \<and>
          list_all2 (\<lambda>x x'. Element_exists s x name = Inr (False, x')) (x # pre) (x' # pre') \<and>
          Element_exists s e name = Inr (True, e')"
        using h e Inr p False by simp
      then show ?thesis by blast
    qed
  qed
qed

text \<open>
  C1. \<^verbatim>\<open>MyFinder::find\<close> asks the elements in the order of the path. When the elements
  \<^verbatim>\<open>pre\<close> return the empty result and the next element \<^verbatim>\<open>e\<close> returns a region, the finder
  returns that region and the elements \<^verbatim>\<open>post\<close> after \<^verbatim>\<open>e\<close> are not touched; when every
  element returns the empty result, so does the finder; and a region that the finder
  returns is the result of the first element with a non-empty result. \<^verbatim>\<open>MyFinder::exists\<close>
  is the same with false and true: it returns true exactly when some element returns
  true after all those before it returned false, and stops at that element.
\<close>

theorem finder_first_match:
  "(list_all2 (\<lambda>x x'. Element_find s x name = Inr (None, x')) pre pre' \<and>
      Element_find s e name = Inr (Some r, e') \<longrightarrow>
      MyFinder_find s (pre @ e # post) name = Inr (Some r, pre' @ e' # post)) \<and>
   (list_all2 (\<lambda>x x'. Element_find s x name = Inr (None, x')) es es' \<longrightarrow>
      MyFinder_find s es name = Inr (None, es')) \<and>
   (MyFinder_find s es name = Inr (Some r, es') \<longrightarrow>
      (\<exists>pre e post pre' e'. es = pre @ e # post \<and> es' = pre' @ e' # post \<and>
         list_all2 (\<lambda>x x'. Element_find s x name = Inr (None, x')) pre pre' \<and>
         Element_find s e name = Inr (Some r, e'))) \<and>
   (list_all2 (\<lambda>x x'. Element_exists s x name = Inr (False, x')) pre pre' \<and>
      Element_exists s e name = Inr (True, e') \<longrightarrow>
      MyFinder_exists s (pre @ e # post) name = Inr (True, pre' @ e' # post)) \<and>
   (list_all2 (\<lambda>x x'. Element_exists s x name = Inr (False, x')) es es' \<longrightarrow>
      MyFinder_exists s es name = Inr (False, es')) \<and>
   (MyFinder_exists s es name = Inr (True, es') \<longrightarrow>
      (\<exists>pre e post pre' e'. es = pre @ e # post \<and> es' = pre' @ e' # post \<and>
         list_all2 (\<lambda>x x'. Element_exists s x name = Inr (False, x')) pre pre' \<and>
         Element_exists s e name = Inr (True, e')))"
proof (intro conjI impI)
  assume a: "list_all2 (\<lambda>x x'. Element_find s x name = Inr (None, x')) pre pre' \<and>
      Element_find s e name = Inr (Some r, e')"
  from finder_find_skip [OF a [THEN conjunct1], of "e # post"] a
  show "MyFinder_find s (pre @ e # post) name = Inr (Some r, pre' @ e' # post)"
    by simp
next
  assume "list_all2 (\<lambda>x x'. Element_find s x name = Inr (None, x')) es es'"
  from finder_find_skip [OF this, of "[]"] show "MyFinder_find s es name = Inr (None, es')"
    by simp
next
  assume "MyFinder_find s es name = Inr (Some r, es')"
  then show "\<exists>pre e post pre' e'. es = pre @ e # post \<and> es' = pre' @ e' # post \<and>
         list_all2 (\<lambda>x x'. Element_find s x name = Inr (None, x')) pre pre' \<and>
         Element_find s e name = Inr (Some r, e')"
    by (rule finder_find_first)
next
  assume a: "list_all2 (\<lambda>x x'. Element_exists s x name = Inr (False, x')) pre pre' \<and>
      Element_exists s e name = Inr (True, e')"
  from finder_exists_skip [OF a [THEN conjunct1], of "e # post"] a
  show "MyFinder_exists s (pre @ e # post) name = Inr (True, pre' @ e' # post)"
    by simp
next
  assume "list_all2 (\<lambda>x x'. Element_exists s x name = Inr (False, x')) es es'"
  from finder_exists_skip [OF this, of "[]"] show "MyFinder_exists s es name = Inr (False, es')"
    by simp
next
  assume "MyFinder_exists s es name = Inr (True, es')"
  then show "\<exists>pre e post pre' e'. es = pre @ e # post \<and> es' = pre' @ e' # post \<and>
         list_all2 (\<lambda>x x'. Element_exists s x name = Inr (False, x')) pre pre' \<and>
         Element_exists s e name = Inr (True, e')"
    by (rule finder_exists_first)
qed

text \<open>In the example the path is the directory \<^verbatim>\<open>cp\<close>, then \<^verbatim>\<open>a.jar\<close>. Both hold a resource
  \<^verbatim>\<open>A\<close>; only the archive holds \<^verbatim>\<open>B\<close>.\<close>

theorem finder_first_match_witness:
  "MyFinder_find example_env [example_cp, example_jar] [0x41] =
     Inr (Some (SystemRegion \<lparr>span_start = 4127, span_length = 2\<rparr>), [example_cp, example_jar]) \<and>
   MyFinder_find example_env [example_cp, example_jar] [0x42] =
     Inr (Some (DataRegion 5 [0x68, 0x65, 0x6C, 0x6C, 0x6F]), [example_cp, example_jar_loaded]) \<and>
   MyFinder_exists example_env [example_cp, example_jar] [0x42] =
     Inr (True, [example_cp, example_jar_loaded])"
proof -
  have cpA: "Element_find example_env example_cp [0x41] =
      Inr (Some (SystemRegion \<lparr>span_start = 4127, span_length = 2\<rparr>), example_cp)"
    by (simp add: example_cp_def example_env_def append_path_def slash_def)
  have cpB: "Element_find example_env example_cp [0x42] = Inr (None, example_cp)"
    by (simp add: example_cp_def example_env_def append_path_def slash_def)
  have cpB': "Element_exists example_env example_cp [0x42] = Inr (False, example_cp)"
    by (simp add: example_cp_def example_env_def append_path_def slash_def)
  have jarB: "Element_find example_env example_jar [0x42] =
      Inr (Some (DataRegion 5 [0x68, 0x65, 0x6C, 0x6C, 0x6F]), example_jar_loaded)"
    using example_init example_find_B
    by (simp add: example_jar_def example_jar_loaded_def JarElement_find_def strip_slashes_def
        example_env_simps example_region_def slash_def)
  have jarB': "Element_exists example_env example_jar [0x42] = Inr (True, example_jar_loaded)"
    using example_init example_findNode_B
    by (simp add: example_jar_def example_jar_loaded_def JarElement_exists_def
          JarIndex_exists_def strip_slashes_def slash_def example_env_simps)
  have 1: "MyFinder_find example_env ([] @ example_cp # [example_jar]) [0x41] =
      Inr (Some (SystemRegion \<lparr>span_start = 4127, span_length = 2\<rparr>), [] @ example_cp # [example_jar])"
    using finder_first_match [where s = example_env and name = "[0x41]" and pre = "[]"
        and pre' = "[]" and e = example_cp and e' = example_cp and post = "[example_jar]"
        and r = "SystemRegion \<lparr>span_start = 4127, span_length = 2\<rparr>", THEN conjunct1] cpA
    by simp
  have 2: "MyFinder_find example_env ([example_cp] @ example_jar # []) [0x42] =
      Inr (Some (DataRegion 5 [0x68, 0x65, 0x6C, 0x6C, 0x6F]), [example_cp] @ example_jar_loaded # [])"
    using finder_first_match [where s = example_env and name = "[0x42]" and pre = "[example_cp]"
        and pre' = "[example_cp]" and e = example_jar and e' = example_jar_loaded and post = "[]"
        and r = "DataRegion 5 [0x68, 0x65, 0x6C, 0x6C, 0x6F]", THEN conjunct1] cpB jarB
    by simp
  have 3: "MyFinder_exists example_env ([example_cp] @ example_jar # []) [0x42] =
      Inr (True, [example_cp] @ example_jar_loaded # [])"
    using finder_first_match [where s = example_env and name = "[0x42]" and pre = "[example_cp]"
        and pre' = "[example_cp]" and e = example_jar and e' = example_jar_loaded and post = "[]",
        THEN conjunct2, THEN conjunct2, THEN conjunct2, THEN conjunct1] cpB' jarB'
    by simp
  show ?thesis using 1 2 3 by simp
qed

section \<open>Enumeration\<close>

lemma yields_first_imp:
  assumes y: "yields nxt i xs i'" and e: "nxt i = nxt j"
  shows "yields nxt j xs i'"
  using y
proof (cases rule: yields.cases)
  case finished
  then have "nxt j = Inr (None, i')" using e by simp
  then show ?thesis using finished by (auto intro: yields.finished)
next
  case (another v i1 vs)
  then have "nxt j = Inr (Some v, i1)" using e by simp
  then show ?thesis using another by (auto intro: yields.another)
qed

lemma yields_first: "nxt i = nxt j \<Longrightarrow> yields nxt i xs i' = yields nxt j xs i'"
  using yields_first_imp [of nxt i xs i' j] yields_first_imp [of nxt j xs i' i] by auto

lemma yields_det:
  "yields nxt i xs i' \<Longrightarrow> yields nxt i ys j' \<Longrightarrow> xs = ys \<and> i' = j'"
proof (induction arbitrary: ys j' rule: yields.induct)
  case (finished i i')
  then show ?case by (auto elim: yields.cases)
next
  case (another i v i' vs i'')
  from another.prems another.hyps(1) obtain ys' where
    "ys = v # ys'" "yields nxt i' ys' j'"
    by (auto elim: yields.cases)
  then show ?case using another.IH by auto
qed

lemma DirIterator_next_None [simp]:
  "DirIterator_next s (DirIterator n k d l None) = Inr (DirIterator_own s n k d l)"
  by simp

lemma yields_nested:
  assumes "yields (DirIterator_next s) i ys i'" "DirIterator_dispose i' = Inr ()"
    "yields (DirIterator_next s) (DirIterator n k d l None) xs o'"
  shows "yields (DirIterator_next s) (DirIterator n k d l (Some i)) (ys @ xs) o'"
  using assms
proof (induction rule: yields.induct)
  case (finished i i')
  have "DirIterator_next s (DirIterator n k d l None) =
      DirIterator_next s (DirIterator n k d l (Some i))"
    using finished.hyps finished.prems(1) by simp
  from yields_first_imp [OF finished.prems(2) this] show ?case by simp
next
  case (another i v i1 vs i'')
  have "DirIterator_next s (DirIterator n k d l (Some i)) =
      Inr (Some v, DirIterator n k d l (Some i1))" using another.hyps(1) by simp
  then show ?case using another.IH [OF another.prems] by (auto intro: yields.another)
qed

lemma yields_split:
  assumes "yields (DirIterator_next s) st zs o'" "st = DirIterator n k d l (Some i)"
  shows "\<exists>ys xs i'. zs = ys @ xs \<and> yields (DirIterator_next s) i ys i' \<and>
     DirIterator_dispose i' = Inr () \<and>
     yields (DirIterator_next s) (DirIterator n k d l None) xs o'"
  using assms
proof (induction arbitrary: i rule: yields.induct)
  case (finished st o')
  from finished obtain i' where i': "DirIterator_next s i = Inr (None, i')"
    and d: "DirIterator_dispose i' = Inr ()"
    and own: "DirIterator_own s n k d l = (None, o')"
    by (auto split: sum.splits prod.splits option.splits unit.splits)
  have "yields (DirIterator_next s) i [] i'" using i' by (rule yields.finished)
  moreover have "yields (DirIterator_next s) (DirIterator n k d l None) [] o'"
    using own by (auto intro: yields.finished)
  ultimately show ?case using d by blast
next
  case (another st v st1 vs o')
  show ?case
  proof (cases "DirIterator_next s i")
    case (Inl f)
    then show ?thesis using another.hyps(1) another.prems by simp
  next
    case (Inr p)
    obtain r i1 where p: "p = (r, i1)" by (cases p)
    show ?thesis
    proof (cases r)
      case (Some v')
      then have st1: "st1 = DirIterator n k d l (Some i1)" and v: "v' = v"
        using another.hyps(1) another.prems Inr p by simp_all
      from another.IH [OF st1] obtain ys xs i' where
        h: "vs = ys @ xs" "yields (DirIterator_next s) i1 ys i'"
          "DirIterator_dispose i' = Inr ()"
          "yields (DirIterator_next s) (DirIterator n k d l None) xs o'" by blast
      have "yields (DirIterator_next s) i (v # ys) i'"
        using Inr p Some v h(2) by (auto intro: yields.another)
      then show ?thesis using h by (metis append_Cons)
    next
      case None
      then have d: "DirIterator_dispose i1 = Inr ()"
        and own: "DirIterator_own s n k d l = (Some v, st1)"
        using another.hyps(1) another.prems Inr p
        by (auto split: sum.splits unit.splits)
      have "yields (DirIterator_next s) i [] i1"
        using Inr p None by (auto intro: yields.finished)
      moreover have "yields (DirIterator_next s) (DirIterator n k d l None) (v # vs) o'"
        using own another.hyps(2) by (auto intro: yields.another)
      ultimately show ?thesis using d by (metis append_Nil)
    qed
  qed
qed

lemma yields_unopened:
  "yields (DirIterator_next s) (DirIterator n k None l None) ys i' \<Longrightarrow>
     DirIterator_dispose i' \<noteq> Inr ()"
  by (erule yields.cases) auto

lemma own_empty: "DirIterator_own s n k (Some []) l = (None, DirIterator n k (Some []) l None)"
  by simp

lemma own_dotted:
  "dotted v \<Longrightarrow> DirIterator_own s n k (Some (v # vs)) l = DirIterator_own s n k (Some vs) l"
  by simp

lemma own_entry:
  "\<not> dotted v \<Longrightarrow> DirIterator_own s n k (Some (v # vs)) l =
     (Some (drop k (append_path n v)),
      DirIterator n k (Some vs) (Some (append_path n v))
        (if env_identify s (append_path n v) = TypeDirectory
         then Some (new_DirIterator s (append_path n v) k) else None))"
  by (simp add: Let_def)

lemma yields_listing:
  "yields (DirIterator_next s) (DirIterator n k (Some vs) l None) xs o' \<Longrightarrow> listing s k n vs xs"
proof (induction "length xs" arbitrary: n vs l xs o' rule: less_induct)
  case less
  show ?case using less.prems
  proof (induction vs arbitrary: l)
    case Nil
    then have "xs = []"
      by (auto elim: yields.cases)
    then show ?case by (simp add: listing.empty)
  next
    case (Cons v vs)
    show ?case
    proof (cases "dotted v")
      case True
      then have "DirIterator_next s (DirIterator n k (Some (v # vs)) l None) =
          DirIterator_next s (DirIterator n k (Some vs) l None)" by simp
      from yields_first_imp [OF Cons.prems this] have "listing s k n vs xs"
        by (rule Cons.IH)
      then show ?thesis using True by (rule listing.hidden [rotated])
    next
      case False
      let ?p = "append_path n v"
      let ?it = "if env_identify s ?p = TypeDirectory
         then Some (new_DirIterator s ?p k) else None"
      have step: "DirIterator_next s (DirIterator n k (Some (v # vs)) l None) =
          Inr (Some (drop k ?p), DirIterator n k (Some vs) (Some ?p) ?it)"
        using False by (simp add: Let_def)
      from Cons.prems step obtain xs' where xs: "xs = drop k ?p # xs'"
        and rest: "yields (DirIterator_next s) (DirIterator n k (Some vs) (Some ?p) ?it) xs' o'"
        by (auto elim: yields.cases)
      show ?thesis
      proof (cases "env_identify s ?p = TypeDirectory")
        case nd: False
        then have "yields (DirIterator_next s) (DirIterator n k (Some vs) (Some ?p) None) xs' o'"
          using rest by simp
        then have "listing s k n vs xs'" using xs by (intro less.hyps) simp_all
        then show ?thesis using False nd xs by (auto intro: listing.plain)
      next
        case dir: True
        then have "yields (DirIterator_next s)
            (DirIterator n k (Some vs) (Some ?p) (Some (new_DirIterator s ?p k))) xs' o'"
          using rest by simp
        from yields_split [OF this refl] obtain ys zs i' where
          h: "xs' = ys @ zs" "yields (DirIterator_next s) (new_DirIterator s ?p k) ys i'"
            "DirIterator_dispose i' = Inr ()"
            "yields (DirIterator_next s) (DirIterator n k (Some vs) (Some ?p) None) zs o'"
          by blast
        obtain ws where ws: "env_open s ?p = Some ws"
          using h(2,3) yields_unopened [of s ?p k None ys i']
          by (cases "env_open s ?p") (auto simp: new_DirIterator_def)
        have "listing s k ?p ws ys"
          using h(1,2) ws xs by (intro less.hyps [of ys ?p ws None i']) (simp_all add: new_DirIterator_def)
        moreover have "listing s k n vs zs"
          using h(1,4) xs by (intro less.hyps [of zs n vs "Some ?p" o']) simp_all
        ultimately show ?thesis using False dir ws xs h(1)
          by (auto intro: listing.descent)
      qed
    qed
  qed
qed

lemma listing_yields:
  "listing s k n vs xs \<Longrightarrow>
     \<exists>l'. yields (DirIterator_next s) (DirIterator n k (Some vs) l None) xs
            (DirIterator n k (Some []) l' None)"
proof (induction arbitrary: l rule: listing.induct)
  case (empty name)
  have "DirIterator_next s (DirIterator name k (Some []) l None) =
      Inr (None, DirIterator name k (Some []) l None)" by simp
  then show ?case by (blast intro: yields.finished)
next
  case (hidden v name vs xs)
  from hidden.IH [of l] obtain l' where
    y: "yields (DirIterator_next s) (DirIterator name k (Some vs) l None) xs
            (DirIterator name k (Some []) l' None)" by blast
  have "DirIterator_next s (DirIterator name k (Some vs) l None) =
      DirIterator_next s (DirIterator name k (Some (v # vs)) l None)"
    using hidden.hyps(1) by simp
  from yields_first_imp [OF y this] show ?case by blast
next
  case (plain v name vs xs)
  let ?p = "append_path name v"
  from plain.IH [of "Some ?p"] obtain l' where
    y: "yields (DirIterator_next s) (DirIterator name k (Some vs) (Some ?p) None) xs
            (DirIterator name k (Some []) l' None)" by blast
  have "DirIterator_next s (DirIterator name k (Some (v # vs)) l None) =
      Inr (Some (drop k ?p), DirIterator name k (Some vs) (Some ?p) None)"
    using plain.hyps by (simp add: Let_def)
  from yields.another [OF this y] show ?case by blast
next
  case (descent v name ws ys vs xs)
  let ?p = "append_path name v"
  from descent.IH(1) [of None] obtain l1 where
    y1: "yields (DirIterator_next s) (DirIterator ?p k (Some ws) None None) ys
            (DirIterator ?p k (Some []) l1 None)" by blast
  from descent.IH(2) [of "Some ?p"] obtain l' where
    y2: "yields (DirIterator_next s) (DirIterator name k (Some vs) (Some ?p) None) xs
            (DirIterator name k (Some []) l' None)" by blast
  have d: "DirIterator_dispose (DirIterator ?p k (Some []) l1 None) = Inr ()" by simp
  have y: "yields (DirIterator_next s)
      (DirIterator name k (Some vs) (Some ?p) (Some (DirIterator ?p k (Some ws) None None)))
      (ys @ xs) (DirIterator name k (Some []) l' None)"
    using y1 d y2 by (rule yields_nested)
  have "DirIterator_next s (DirIterator name k (Some (v # vs)) l None) =
      Inr (Some (drop k ?p), DirIterator name k (Some vs) (Some ?p)
          (Some (DirIterator ?p k (Some ws) None None)))"
    using descent.hyps by (simp add: Let_def new_DirIterator_def)
  from yields.another [OF this y] show ?case by blast
qed

lemma components_nonempty: "components cs \<noteq> []"
  by (induction cs) (auto split: list.splits)

lemma components_plain: "slash \<notin> set v \<Longrightarrow> components v = [v]"
  by (induction v) auto

lemma components_append:
  "components (a @ slash # b) = components a @ components b"
proof (induction a)
  case Nil
  then show ?case using components_nonempty [of b] by (cases "components b") auto
next
  case (Cons c a)
  then show ?case using components_nonempty [of a]
    by (cases "components a") auto
qed

lemma listing_undotted:
  assumes "listing s k n vs xs"
    and "\<forall>p ws. env_open s p = Some ws \<longrightarrow> (\<forall>w \<in> set ws. slash \<notin> set w)"
    and "\<forall>v \<in> set vs. slash \<notin> set v"
    and "k = length root + 1"
    and "n = root \<or> (\<exists>rel. n = root @ slash # rel \<and> (\<forall>c \<in> set (components rel). \<not> dotted c))"
  shows "\<forall>x \<in> set xs. \<forall>c \<in> set (components x). \<not> dotted c"
  using assms
proof (induction rule: listing.induct)
  case (empty name)
  then show ?case by simp
next
  case (hidden v name vs xs)
  then show ?case by simp
next
  case (plain v name vs xs)
  have "\<forall>c \<in> set (components (drop k (append_path name v))). \<not> dotted c"
    using plain.prems plain.hyps(1)
    by (auto simp: append_path_def components_plain components_append)
  then show ?case using plain by simp
next
  case (descent v name ws ys vs xs)
  have x: "\<forall>c \<in> set (components (drop k (append_path name v))). \<not> dotted c"
    using descent.prems descent.hyps(1)
    by (auto simp: append_path_def components_plain components_append)
  have w: "\<forall>w \<in> set ws. slash \<notin> set w" using descent.prems(1) descent.hyps(3) by blast
  have n: "append_path name v = root \<or> (\<exists>rel. append_path name v = root @ slash # rel \<and>
      (\<forall>c \<in> set (components rel). \<not> dotted c))"
  proof (cases "name = root")
    case True
    then have "append_path name v = root @ slash # v \<and> (\<forall>c \<in> set (components v). \<not> dotted c)"
      using descent.prems(2) descent.hyps(1) by (simp add: append_path_def components_plain)
    then show ?thesis by blast
  next
    case False
    then obtain rel where r: "name = root @ slash # rel" "\<forall>c \<in> set (components rel). \<not> dotted c"
      using descent.prems(4) by blast
    then have "append_path name v = root @ slash # (rel @ slash # v) \<and>
        (\<forall>c \<in> set (components (rel @ slash # v)). \<not> dotted c)"
      using descent.prems(2) descent.hyps(1)
      by (simp add: append_path_def components_plain components_append)
    then show ?thesis by blast
  qed
  have "\<forall>x \<in> set ys. \<forall>c \<in> set (components x). \<not> dotted c"
    using descent.IH(1) [OF descent.prems(1) w descent.prems(3) n] .
  moreover have "\<forall>x \<in> set xs. \<forall>c \<in> set (components x). \<not> dotted c"
    using descent.IH(2) descent.prems by simp
  ultimately show ?case using x by auto
qed

lemma yields_Inl: "yields nxt i xs i' \<Longrightarrow> nxt i = Inl f \<Longrightarrow> False"
  by (erule yields.cases) simp_all

lemma yields_Some: "yields nxt i xs i' \<Longrightarrow> nxt i = Inr (Some v, i1) \<Longrightarrow>
    \<exists>vs. xs = v # vs \<and> yields nxt i1 vs i'"
  by (erule yields.cases) simp_all

lemma yields_None: "yields nxt i xs i' \<Longrightarrow> nxt i = Inr (None, i1) \<Longrightarrow> xs = [] \<and> i' = i1"
  by (erule yields.cases) simp_all

lemma yields_OfDirectory:
  "yields (Iterator_next s) (OfDirectory d) ys it' \<longleftrightarrow>
     (\<exists>d'. it' = OfDirectory d' \<and> yields (DirIterator_next s) d ys d')"
proof
  assume "yields (Iterator_next s) (OfDirectory d) ys it'"
  then show "\<exists>d'. it' = OfDirectory d' \<and> yields (DirIterator_next s) d ys d'"
  proof (induction ys arbitrary: d)
    case Nil
    then have n: "Iterator_next s (OfDirectory d) = Inr (None, it')"
      by (auto elim: yields.cases)
    then obtain d' where "DirIterator_next s d = Inr (None, d')" "it' = OfDirectory d'"
      by (cases "DirIterator_next s d") (auto split: prod.splits)
    then show ?case by (blast intro: yields.finished)
  next
    case (Cons y ys)
    from Cons.prems obtain i1 where n: "Iterator_next s (OfDirectory d) = Inr (Some y, i1)"
      and r: "yields (Iterator_next s) i1 ys it'"
      by (auto elim: yields.cases)
    from n obtain d1 where d1: "DirIterator_next s d = Inr (Some y, d1)" "i1 = OfDirectory d1"
      by (cases "DirIterator_next s d") (auto split: prod.splits)
    from Cons.IH [of d1] r d1 obtain d' where
      "it' = OfDirectory d'" "yields (DirIterator_next s) d1 ys d'" by blast
    then show ?case using d1 by (blast intro: yields.another)
  qed
next
  assume "\<exists>d'. it' = OfDirectory d' \<and> yields (DirIterator_next s) d ys d'"
  then obtain d' where i: "it' = OfDirectory d'" and y: "yields (DirIterator_next s) d ys d'"
    by blast
  from y show "yields (Iterator_next s) (OfDirectory d) ys it'"
    unfolding i
    by (induction rule: yields.induct) (auto intro: yields.intros)
qed

lemma yields_OfJar:
  "yields (Iterator_next s) (OfJar j) ys it' \<longleftrightarrow>
     (\<exists>j'. it' = OfJar j' \<and> yields (JarIterator_next s) j ys j')"
proof
  assume "yields (Iterator_next s) (OfJar j) ys it'"
  then show "\<exists>j'. it' = OfJar j' \<and> yields (JarIterator_next s) j ys j'"
  proof (induction ys arbitrary: j)
    case Nil
    then have n: "Iterator_next s (OfJar j) = Inr (None, it')"
      by (auto elim: yields.cases)
    then obtain j' where "JarIterator_next s j = Inr (None, j')" "it' = OfJar j'"
      by (cases "JarIterator_next s j") (auto split: prod.splits)
    then show ?case by (blast intro: yields.finished)
  next
    case (Cons y ys)
    from Cons.prems obtain i1 where n: "Iterator_next s (OfJar j) = Inr (Some y, i1)"
      and r: "yields (Iterator_next s) i1 ys it'"
      by (auto elim: yields.cases)
    from n obtain j1 where j1: "JarIterator_next s j = Inr (Some y, j1)" "i1 = OfJar j1"
      by (cases "JarIterator_next s j") (auto split: prod.splits)
    from Cons.IH [of j1] r j1 obtain j' where
      "it' = OfJar j'" "yields (JarIterator_next s) j1 ys j'" by blast
    then show ?case using j1 by (blast intro: yields.another)
  qed
next
  assume "\<exists>j'. it' = OfJar j' \<and> yields (JarIterator_next s) j ys j'"
  then obtain j' where i: "it' = OfJar j'" and y: "yields (JarIterator_next s) j ys j'"
    by blast
  from y show "yields (Iterator_next s) (OfJar j) ys it'"
    unfolding i
    by (induction rule: yields.induct) (auto intro: yields.intros)
qed

lemma enumerates_directory:
  "enumerates s (DirectoryElement name) ys = natural s (DirectoryElement name) ys"
proof
  assume "enumerates s (DirectoryElement name) ys"
  then obtain d' where y: "yields (DirIterator_next s) (new_DirIterator s name (length name + 1)) ys d'"
    and d: "DirIterator_dispose d' = Inr ()"
    by (auto simp: enumerates_def yields_OfDirectory)
  obtain vs where vs: "env_open s name = Some vs"
    using y d yields_unopened [of s name "length name + 1" None ys d']
    by (cases "env_open s name") (auto simp: new_DirIterator_def)
  then have "listing s (length name + 1) name vs ys"
    using y yields_listing [of s name "length name + 1" vs None ys d']
    by (simp add: new_DirIterator_def)
  then show "natural s (DirectoryElement name) ys" using vs by simp
next
  assume "natural s (DirectoryElement name) ys"
  then obtain vs where vs: "env_open s name = Some vs"
    and l: "listing s (length name + 1) name vs ys" by auto
  from listing_yields [OF l, of None] obtain l' where
    "yields (DirIterator_next s) (DirIterator name (length name + 1) (Some vs) None None) ys
       (DirIterator name (length name + 1) (Some []) l' None)" by blast
  then have "yields (Iterator_next s) (OfDirectory (new_DirIterator s name (length name + 1))) ys
      (OfDirectory (DirIterator name (length name + 1) (Some []) l' None))"
    using vs by (simp add: yields_OfDirectory new_DirIterator_def)
  moreover have "Element_iterator s (DirectoryElement name) =
      Inr (OfDirectory (new_DirIterator s name (length name + 1)), DirectoryElement name)"
    by simp
  moreover have "Iterator_dispose
      (OfDirectory (DirIterator name (length name + 1) (Some []) l' None)) = Inr ()"
    by simp
  ultimately show "enumerates s (DirectoryElement name) ys"
    unfolding enumerates_def by blast
qed

lemma init_sound:
  assumes "init s e = Inr e'" "index_sound e"
  shows "index_sound e'"
proof -
  have "\<And>r ix. JarIndex_open (env_hashB s) (env_memory s) r = Some ix \<Longrightarrow> index_inv ix"
    using open_built built_inv by blast
  then show ?thesis using assms
    by (cases e) (auto simp: index_sound_def split: if_splits option.splits)
qed

lemma archive_iterator_unfold:
  "archive_backed e \<Longrightarrow> Element_iterator s e =
     (case init s e of Inl f \<Rightarrow> Inl f
      | Inr e' \<Rightarrow> Inr (OfJar (JarIterator (element_index e') 0), e'))"
  by (cases e) simp_all

lemma natural_archive_unfold:
  "archive_backed e \<Longrightarrow> natural s e ys =
     (\<exists>e' ix. init s e = Inr e' \<and> element_index e' = Some ix \<and>
        ys = map (\<lambda>n. entryName (env_memory s) (entry n)) (nodes ix))"
  by (cases e) simp_all

lemma enumerates_archive:
  assumes a: "archive_backed e" and sd: "index_sound e"
  shows "enumerates s e ys = natural s e ys"
proof
  assume "enumerates s e ys"
  then obtain e' j' where i: "init s e = Inr e'"
    and y: "yields (JarIterator_next s) (JarIterator (element_index e') 0) ys j'"
    using a by (auto simp: enumerates_def archive_iterator_unfold yields_OfJar split: sum.splits)
  obtain ix where ix: "element_index e' = Some ix"
    using y by (cases "element_index e'") (auto elim: yields.cases)
  have inv: "index_inv ix" using init_sound [OF i sd] ix by (simp add: index_sound_def)
  from jar_iterator_yields [OF inv, of 0 s] have
    "yields (JarIterator_next s) (JarIterator (Some ix) 0)
       (map (\<lambda>n. entryName (env_memory s) (entry n)) (nodes ix)) (JarIterator (Some ix) (position ix))"
    by simp
  from yields_det [OF this] y ix have "ys = map (\<lambda>n. entryName (env_memory s) (entry n)) (nodes ix)"
    by auto
  then show "natural s e ys" using a i ix by (auto simp: natural_archive_unfold)
next
  assume "natural s e ys"
  then obtain e' ix where i: "init s e = Inr e'" and ix: "element_index e' = Some ix"
    and ys: "ys = map (\<lambda>n. entryName (env_memory s) (entry n)) (nodes ix)"
    using a by (auto simp: natural_archive_unfold)
  have inv: "index_inv ix" using init_sound [OF i sd] ix by (simp add: index_sound_def)
  from jar_iterator_yields [OF inv, of 0 s] have
    "yields (Iterator_next s) (OfJar (JarIterator (Some ix) 0)) ys
       (OfJar (JarIterator (Some ix) (position ix)))"
    using ys by (simp add: yields_OfJar)
  moreover have "Element_iterator s e = Inr (OfJar (JarIterator (Some ix) 0), e')"
    using a i ix by (simp add: archive_iterator_unfold)
  moreover have "Iterator_dispose (OfJar (JarIterator (Some ix) (position ix))) = Inr ()"
    by simp
  ultimately show "enumerates s e ys"
    unfolding enumerates_def by blast
qed

lemma enumerates_natural:
  "index_sound e \<Longrightarrow> enumerates s e ys = natural s e ys"
  by (cases e) (simp_all add: enumerates_directory enumerates_archive)

lemma my_next_yield:
  "Iterator_next s it = Inr (Some v, it1) \<Longrightarrow>
     MyIterator_next s (MyIterator es (Some it)) = Inr (Some v, MyIterator es (Some it1))"
  by (simp add: MyIterator_next.simps)

lemma my_next_fail:
  "Iterator_next s it = Inl f \<Longrightarrow> MyIterator_next s (MyIterator es (Some it)) = Inl f"
  by (simp add: MyIterator_next.simps)

lemma my_next_exhausted:
  "Iterator_next s it = Inr (None, it1) \<Longrightarrow>
     MyIterator_next s (MyIterator es (Some it)) =
       (case Iterator_dispose it1 of
          Inl f \<Rightarrow> Inl f
        | Inr u \<Rightarrow>
            (case es of
               [] \<Rightarrow> Inr (None, MyIterator [] None)
             | x # xs \<Rightarrow>
                 (case Element_iterator s x of
                    Inl f \<Rightarrow> Inl f
                  | Inr (it2, x') \<Rightarrow> MyIterator_next s (MyIterator xs (Some it2)))))"
  by (simp add: MyIterator_next.simps split: sum.splits list.splits)

lemma my_exhausted:
  assumes n: "Iterator_next s it = Inr (None, it1)"
    and y: "yields (MyIterator_next s) (MyIterator es (Some it)) xs mi'"
  shows "Iterator_dispose it1 = Inr () \<and>
    ((es = [] \<and> xs = []) \<or>
     (\<exists>x xs' it2 x'. es = x # xs' \<and> Element_iterator s x = Inr (it2, x') \<and>
        yields (MyIterator_next s) (MyIterator xs' (Some it2)) xs mi'))"
proof (cases "Iterator_dispose it1")
  case (Inl f)
  then have "MyIterator_next s (MyIterator es (Some it)) = Inl f"
    using n by (simp add: my_next_exhausted)
  then show ?thesis using y yields_Inl by fastforce
next
  case (Inr u)
  show ?thesis
  proof (cases es)
    case Nil
    then have "MyIterator_next s (MyIterator es (Some it)) = Inr (None, MyIterator [] None)"
      using n Inr by (simp add: my_next_exhausted)
    from yields_None [OF y this] show ?thesis using Inr Nil by simp
  next
    case (Cons x xs')
    show ?thesis
    proof (cases "Element_iterator s x")
      case (Inl f)
      then have "MyIterator_next s (MyIterator es (Some it)) = Inl f"
        using n Inr Cons by (simp add: my_next_exhausted)
      then show ?thesis using y yields_Inl by fastforce
    next
      case r: (Inr p)
      obtain it2 x' where p: "p = (it2, x')" by (cases p)
      have "MyIterator_next s (MyIterator es (Some it)) =
          MyIterator_next s (MyIterator xs' (Some it2))"
        using n Inr Cons r p by (simp add: my_next_exhausted)
      from yields_first_imp [OF y this] show ?thesis using Inr Cons r p by simp
    qed
  qed
qed

lemma my_yields_forward:
  "yields (MyIterator_next s) (MyIterator es (Some it)) xs mi' \<Longrightarrow>
     \<exists>ys xss it'. xs = ys @ concat xss \<and> yields (Iterator_next s) it ys it' \<and>
       Iterator_dispose it' = Inr () \<and> list_all2 (enumerates s) es xss"
proof (induction es arbitrary: it xs mi')
  case Nil
  show ?case using Nil.prems
  proof (induction xs arbitrary: it)
    case Nil
    show ?case
    proof (cases "Iterator_next s it")
      case (Inl f)
      then show ?thesis using Nil.prems my_next_fail yields_Inl by fastforce
    next
      case (Inr p)
      obtain r it1 where p: "p = (r, it1)" by (cases p)
      show ?thesis
      proof (cases r)
        case None
        from my_exhausted [OF _ Nil.prems, of it1] Inr p None
        have "Iterator_dispose it1 = Inr ()" by simp
        moreover have "yields (Iterator_next s) it [] it1"
          using Inr p None by (auto intro: yields.finished)
        moreover have "([]::cstring list) = [] @ concat []" "list_all2 (enumerates s) [] []"
          by simp_all
        ultimately show ?thesis by blast
      next
        case (Some v)
        from yields_Some [OF Nil.prems my_next_yield] Inr p Some show ?thesis by simp
      qed
    qed
  next
    case (Cons a xs)
    show ?case
    proof (cases "Iterator_next s it")
      case (Inl f)
      then show ?thesis using Cons.prems my_next_fail yields_Inl by fastforce
    next
      case (Inr p)
      obtain r it1 where p: "p = (r, it1)" by (cases p)
      show ?thesis
      proof (cases r)
        case None
        from my_exhausted [OF _ Cons.prems, of it1] Inr p None show ?thesis by simp
      next
        case (Some v)
        then have n: "Iterator_next s it = Inr (Some v, it1)" using Inr p by simp
        from yields_Some [OF Cons.prems my_next_yield [OF n]]
        have va: "v = a" and r: "yields (MyIterator_next s) (MyIterator [] (Some it1)) xs mi'"
          by simp_all
        from Cons.IH [OF r] obtain ys xss it' where
          h: "xs = ys @ concat xss" "yields (Iterator_next s) it1 ys it'"
            "Iterator_dispose it' = Inr ()" "list_all2 (enumerates s) [] xss" by blast
        have "yields (Iterator_next s) it (a # ys) it'"
          using n va h(2) by (auto intro: yields.another)
        moreover have "a # xs = (a # ys) @ concat xss" using h(1) by simp
        ultimately show ?thesis using h(3,4) by blast
      qed
    qed
  qed
next
  case (Cons e es)
  note outer = Cons.IH
  show ?case using Cons.prems
  proof (induction xs arbitrary: it)
    case Nil
    show ?case
    proof (cases "Iterator_next s it")
      case (Inl f)
      then show ?thesis using Nil.prems my_next_fail yields_Inl by fastforce
    next
      case (Inr p)
      obtain r it1 where p: "p = (r, it1)" by (cases p)
      show ?thesis
      proof (cases r)
        case None
        from my_exhausted [OF _ Nil.prems, of it1] Inr p None obtain it2 e' where
          d: "Iterator_dispose it1 = Inr ()" and ei: "Element_iterator s e = Inr (it2, e')"
          and y: "yields (MyIterator_next s) (MyIterator es (Some it2)) [] mi'" by auto
        from outer [OF y] obtain ys xss it' where
          h: "[] = ys @ concat xss" "yields (Iterator_next s) it2 ys it'"
            "Iterator_dispose it' = Inr ()" "list_all2 (enumerates s) es xss" by blast
        have "enumerates s e ys" using ei h(2,3) by (auto simp: enumerates_def)
        then have l: "list_all2 (enumerates s) (e # es) (ys # xss)" using h(4) by simp
        have y0: "yields (Iterator_next s) it [] it1"
          using Inr p None by (auto intro: yields.finished)
        have "ys @ concat xss = [] @ concat (ys # xss)" by simp
        then show ?thesis using h(1) y0 d l by metis
      next
        case (Some v)
        from yields_Some [OF Nil.prems my_next_yield] Inr p Some show ?thesis by simp
      qed
    qed
  next
    case (Cons a xs)
    show ?case
    proof (cases "Iterator_next s it")
      case (Inl f)
      then show ?thesis using Cons.prems my_next_fail yields_Inl by fastforce
    next
      case (Inr p)
      obtain r it1 where p: "p = (r, it1)" by (cases p)
      show ?thesis
      proof (cases r)
        case None
        from my_exhausted [OF _ Cons.prems, of it1] Inr p None obtain it2 e' where
          d: "Iterator_dispose it1 = Inr ()" and ei: "Element_iterator s e = Inr (it2, e')"
          and y: "yields (MyIterator_next s) (MyIterator es (Some it2)) (a # xs) mi'" by auto
        from outer [OF y] obtain ys xss it' where
          h: "a # xs = ys @ concat xss" "yields (Iterator_next s) it2 ys it'"
            "Iterator_dispose it' = Inr ()" "list_all2 (enumerates s) es xss" by blast
        have "enumerates s e ys" using ei h(2,3) by (auto simp: enumerates_def)
        then have l: "list_all2 (enumerates s) (e # es) (ys # xss)" using h(4) by simp
        have y0: "yields (Iterator_next s) it [] it1"
          using Inr p None by (auto intro: yields.finished)
        have "ys @ concat xss = [] @ concat (ys # xss)" by simp
        then show ?thesis using h(1) y0 d l by metis
      next
        case (Some v)
        then have n: "Iterator_next s it = Inr (Some v, it1)" using Inr p by simp
        from yields_Some [OF Cons.prems my_next_yield [OF n]]
        have va: "v = a" and r: "yields (MyIterator_next s) (MyIterator (e # es) (Some it1)) xs mi'"
          by simp_all
        from Cons.IH [OF r] obtain ys xss it' where
          h: "xs = ys @ concat xss" "yields (Iterator_next s) it1 ys it'"
            "Iterator_dispose it' = Inr ()" "list_all2 (enumerates s) (e # es) xss" by blast
        have "yields (Iterator_next s) it (a # ys) it'"
          using n va h(2) by (auto intro: yields.another)
        moreover have "a # xs = (a # ys) @ concat xss" using h(1) by simp
        ultimately show ?thesis using h(3,4) by blast
      qed
    qed
  qed
qed

lemma my_yields_backward:
  "yields (Iterator_next s) it ys it' \<Longrightarrow> Iterator_dispose it' = Inr () \<Longrightarrow>
   list_all2 (enumerates s) es xss \<Longrightarrow>
     \<exists>mi'. yields (MyIterator_next s) (MyIterator es (Some it)) (ys @ concat xss) mi'"
proof (induction es arbitrary: it ys it' xss)
  case Nil
  from Nil.prems(1,2) show ?case using Nil.prems(3)
  proof (induction rule: yields.induct)
    case (finished i i')
    then have "MyIterator_next s (MyIterator [] (Some i)) = Inr (None, MyIterator [] None)"
      by (simp add: my_next_exhausted)
    then show ?case using finished.prems by (auto intro: yields.finished)
  next
    case (another i v i1 vs i'')
    from another.IH [OF another.prems] obtain mi' where
      "yields (MyIterator_next s) (MyIterator [] (Some i1)) (vs @ concat xss) mi'" by blast
    from yields.another [OF my_next_yield [OF another.hyps(1)] this] show ?case by auto
  qed
next
  case (Cons e es)
  from Cons.prems(3) obtain zs xss' where x: "xss = zs # xss'" "enumerates s e zs"
    "list_all2 (enumerates s) es xss'"
    by (auto simp: list_all2_Cons1)
  from x(2) obtain it2 e' it2' where e2: "Element_iterator s e = Inr (it2, e')"
    "yields (Iterator_next s) it2 zs it2'" "Iterator_dispose it2' = Inr ()"
    by (auto simp: enumerates_def)
  from Cons.IH [OF e2(2,3) x(3)] obtain mj where
    nxt: "yields (MyIterator_next s) (MyIterator es (Some it2)) (zs @ concat xss') mj" by blast
  from Cons.prems(1,2) show ?case
  proof (induction rule: yields.induct)
    case (finished i i')
    then have "MyIterator_next s (MyIterator es (Some it2)) =
        MyIterator_next s (MyIterator (e # es) (Some i))"
      using e2(1) by (simp add: my_next_exhausted)
    from yields_first_imp [OF nxt this] show ?case using x(1) by auto
  next
    case (another i v i1 vs i'')
    from another.IH [OF another.prems] obtain mi' where
      "yields (MyIterator_next s) (MyIterator (e # es) (Some i1)) (vs @ concat xss) mi'" by blast
    from yields.another [OF my_next_yield [OF another.hyps(1)] this] show ?case by auto
  qed
qed

lemma finder_yields_forward:
  assumes "MyFinder_iterator s es = Inr mi" "yields (MyIterator_next s) mi xs mi'"
  shows "\<exists>xss. xs = concat xss \<and> list_all2 (enumerates s) es xss"
proof (cases es)
  case Nil
  then have "mi = MyIterator [] None" using assms(1) by simp
  then have "xs = []"
    using assms(2) yields_None [of "MyIterator_next s" mi xs mi' "MyIterator [] None"]
    by (simp add: MyIterator_next.simps)
  then show ?thesis using Nil by simp
next
  case (Cons e rest)
  then obtain it e' where ei: "Element_iterator s e = Inr (it, e')"
    and mi: "mi = MyIterator rest (Some it)"
    using assms(1) by (auto split: sum.splits)
  from my_yields_forward [OF assms(2) [unfolded mi]] obtain ys xss it' where
    h: "xs = ys @ concat xss" "yields (Iterator_next s) it ys it'"
      "Iterator_dispose it' = Inr ()" "list_all2 (enumerates s) rest xss" by blast
  have "enumerates s e ys" using ei h(2,3) by (auto simp: enumerates_def)
  then have "list_all2 (enumerates s) es (ys # xss)" using h(4) Cons by simp
  moreover have "xs = concat (ys # xss)" using h(1) by simp
  ultimately show ?thesis by blast
qed

lemma finder_yields_backward:
  assumes "list_all2 (enumerates s) es xss"
  shows "\<exists>mi mi'. MyFinder_iterator s es = Inr mi \<and> yields (MyIterator_next s) mi (concat xss) mi'"
proof (cases es)
  case Nil
  then have "xss = []" using assms by simp
  moreover have "yields (MyIterator_next s) (MyIterator [] None) [] (MyIterator [] None)"
    by (auto intro: yields.finished simp: MyIterator_next.simps)
  ultimately show ?thesis using Nil by auto
next
  case (Cons e rest)
  then obtain zs xss' where x: "xss = zs # xss'" "enumerates s e zs"
    "list_all2 (enumerates s) rest xss'"
    using assms by (auto simp: list_all2_Cons1)
  from x(2) obtain it e' it' where e2: "Element_iterator s e = Inr (it, e')"
    "yields (Iterator_next s) it zs it'" "Iterator_dispose it' = Inr ()"
    by (auto simp: enumerates_def)
  from my_yields_backward [OF e2(2,3) x(3)] obtain mi' where
    "yields (MyIterator_next s) (MyIterator rest (Some it)) (zs @ concat xss') mi'" by blast
  then show ?thesis using Cons e2(1) x(1) by auto
qed

lemma drop_root:
  assumes "k = length root + 1"
    and "n = root \<or> (\<exists>rel. n = root @ slash # rel)"
  shows "root @ slash # drop k (append_path n v) = append_path n v"
  using assms by (auto simp: append_path_def)

lemma listing_descends:
  assumes "listing s k n vs xs" and "k = length root + 1"
    and "n = root \<or> (\<exists>rel. n = root @ slash # rel)"
  shows "(\<forall>v \<in> set vs. \<not> dotted v \<longrightarrow> drop k (append_path n v) \<in> set xs) \<and>
    (\<forall>x \<in> set xs. env_identify s (root @ slash # x) = TypeDirectory \<longrightarrow>
       (\<forall>ws w. env_open s (root @ slash # x) = Some ws \<and> w \<in> set ws \<and> \<not> dotted w \<longrightarrow>
          x @ slash # w \<in> set xs))"
  using assms
proof (induction rule: listing.induct)
  case (empty name)
  then show ?case by simp
next
  case (hidden v name vs xs)
  then show ?case by auto
next
  case (plain v name vs xs)
  let ?x = "drop k (append_path name v)"
  have r: "root @ slash # ?x = append_path name v"
    using plain.prems by (rule drop_root)
  from plain.IH [OF plain.prems] have
    1: "\<forall>v \<in> set vs. \<not> dotted v \<longrightarrow> drop k (append_path name v) \<in> set xs" and
    2: "\<forall>x \<in> set xs. env_identify s (root @ slash # x) = TypeDirectory \<longrightarrow>
       (\<forall>ws w. env_open s (root @ slash # x) = Some ws \<and> w \<in> set ws \<and> \<not> dotted w \<longrightarrow>
          x @ slash # w \<in> set xs)" by blast+
  show ?case
  proof (intro conjI ballI impI allI)
    fix u assume "u \<in> set (v # vs)" "\<not> dotted u"
    then show "drop k (append_path name u) \<in> set (?x # xs)" using 1 by auto
  next
    fix x ws w
    assume x: "x \<in> set (?x # xs)" "env_identify s (root @ slash # x) = TypeDirectory"
      "env_open s (root @ slash # x) = Some ws \<and> w \<in> set ws \<and> \<not> dotted w"
    have "x \<noteq> ?x" using x(2) r plain.hyps(2) by auto
    then have "x \<in> set xs" using x(1) by simp
    then show "x @ slash # w \<in> set (?x # xs)" using 2 x(2,3) by auto
  qed
next
  case (descent v name ws ys vs xs)
  let ?p = "append_path name v"
  let ?x = "drop k ?p"
  have r: "root @ slash # ?x = ?p"
    using descent.prems by (rule drop_root)
  have sub: "?p = root \<or> (\<exists>rel. ?p = root @ slash # rel)" using r by metis
  from descent.IH(1) [OF descent.prems(1) sub] have
    y1: "\<forall>w \<in> set ws. \<not> dotted w \<longrightarrow> drop k (append_path ?p w) \<in> set ys" and
    y2: "\<forall>x \<in> set ys. env_identify s (root @ slash # x) = TypeDirectory \<longrightarrow>
       (\<forall>ws w. env_open s (root @ slash # x) = Some ws \<and> w \<in> set ws \<and> \<not> dotted w \<longrightarrow>
          x @ slash # w \<in> set ys)" by blast+
  from descent.IH(2) [OF descent.prems] have
    1: "\<forall>v \<in> set vs. \<not> dotted v \<longrightarrow> drop k (append_path name v) \<in> set xs" and
    2: "\<forall>x \<in> set xs. env_identify s (root @ slash # x) = TypeDirectory \<longrightarrow>
       (\<forall>ws w. env_open s (root @ slash # x) = Some ws \<and> w \<in> set ws \<and> \<not> dotted w \<longrightarrow>
          x @ slash # w \<in> set xs)" by blast+
  have d: "\<And>w. drop k (append_path ?p w) = ?x @ slash # w"
  proof -
    fix w
    have "append_path ?p w = root @ slash # (?x @ slash # w)"
      using r by (simp add: append_path_def)
    then show "drop k (append_path ?p w) = ?x @ slash # w"
      using descent.prems(1) by simp
  qed
  show ?case
  proof (intro conjI ballI impI allI)
    fix u assume "u \<in> set (v # vs)" "\<not> dotted u"
    then show "drop k (append_path name u) \<in> set (?x # ys @ xs)" using 1 by auto
  next
    fix x ws' w
    assume x: "x \<in> set (?x # ys @ xs)" "env_identify s (root @ slash # x) = TypeDirectory"
      "env_open s (root @ slash # x) = Some ws' \<and> w \<in> set ws' \<and> \<not> dotted w"
    consider "x = ?x" | "x \<in> set ys" | "x \<in> set xs" using x(1) by auto
    then show "x @ slash # w \<in> set (?x # ys @ xs)"
    proof cases
      case 1
      then have "ws' = ws" using x(3) r descent.hyps(3) by simp
      then have "drop k (append_path ?p w) \<in> set ys" using y1 x(3) by blast
      then show ?thesis using d 1 by simp
    next
      case 2
      then show ?thesis using y2 x(2,3) by auto
    next
      case 3
      then show ?thesis using 2 x(2,3) by auto
    qed
  qed
qed

text \<open>
  C7. Take a finder whose elements, where they have an index already, have a
  well-formed one. The names that its iterator yields are the concatenation, in the
  order of the path, of the enumerations of its elements in their natural order: when
  the iterator yields \<^verbatim>\<open>xs\<close> and then null, \<^verbatim>\<open>xs\<close> is that concatenation, and when each
  element has an enumeration in natural order, the iterator yields their concatenation.
  The enumeration of an element by itself is the one in natural order. In the
  enumeration of a directory element, a path that is a directory is followed by the
  paths of the names in it that do not begin with a dot; and when the System returns
  names without \<^verbatim>\<open>/\<close>, no component of a path begins with a dot.
\<close>

theorem finder_enumeration:
  assumes "\<forall>e \<in> set es. index_sound e"
  shows "(\<forall>mi xs mi'. MyFinder_iterator s es = Inr mi \<and> yields (MyIterator_next s) mi xs mi' \<longrightarrow>
       (\<exists>xss. xs = concat xss \<and> list_all2 (natural s) es xss)) \<and>
    (\<forall>xss. list_all2 (natural s) es xss \<longrightarrow>
       (\<exists>mi mi'. MyFinder_iterator s es = Inr mi \<and>
          yields (MyIterator_next s) mi (concat xss) mi')) \<and>
    (\<forall>e \<in> set es. \<forall>ys. enumerates s e ys = natural s e ys) \<and>
    (\<forall>name ys. natural s (DirectoryElement name) ys \<longrightarrow>
       (\<forall>y \<in> set ys. env_identify s (append_path name y) = TypeDirectory \<longrightarrow>
          (\<forall>ws w. env_open s (append_path name y) = Some ws \<and> w \<in> set ws \<and> \<not> dotted w \<longrightarrow>
             y @ slash # w \<in> set ys))) \<and>
    ((\<forall>p ws. env_open s p = Some ws \<longrightarrow> (\<forall>w \<in> set ws. slash \<notin> set w)) \<longrightarrow>
       (\<forall>name ys. natural s (DirectoryElement name) ys \<longrightarrow>
          (\<forall>y \<in> set ys. \<forall>c \<in> set (components y). \<not> dotted c)))"
proof (intro conjI)
  have eq: "\<And>e ys. e \<in> set es \<Longrightarrow> enumerates s e ys = natural s e ys"
    using assms enumerates_natural by blast
  show "\<forall>mi xs mi'. MyFinder_iterator s es = Inr mi \<and> yields (MyIterator_next s) mi xs mi' \<longrightarrow>
       (\<exists>xss. xs = concat xss \<and> list_all2 (natural s) es xss)"
  proof (intro allI impI)
    fix mi xs mi'
    assume a: "MyFinder_iterator s es = Inr mi \<and> yields (MyIterator_next s) mi xs mi'"
    then obtain xss where x: "xs = concat xss" "list_all2 (enumerates s) es xss"
      using finder_yields_forward by blast
    from x(2) have "list_all2 (natural s) es xss"
      by (rule list.rel_mono_strong) (simp add: eq)
    then show "\<exists>xss. xs = concat xss \<and> list_all2 (natural s) es xss" using x(1) by blast
  qed
  show "\<forall>xss. list_all2 (natural s) es xss \<longrightarrow>
       (\<exists>mi mi'. MyFinder_iterator s es = Inr mi \<and>
          yields (MyIterator_next s) mi (concat xss) mi')"
  proof (intro allI impI)
    fix xss
    assume "list_all2 (natural s) es xss"
    then have "list_all2 (enumerates s) es xss"
      by (rule list.rel_mono_strong) (simp add: eq)
    then show "\<exists>mi mi'. MyFinder_iterator s es = Inr mi \<and>
          yields (MyIterator_next s) mi (concat xss) mi'"
      by (rule finder_yields_backward)
  qed
  show "\<forall>e \<in> set es. \<forall>ys. enumerates s e ys = natural s e ys" using eq by blast
  show "\<forall>name ys. natural s (DirectoryElement name) ys \<longrightarrow>
       (\<forall>y \<in> set ys. env_identify s (append_path name y) = TypeDirectory \<longrightarrow>
          (\<forall>ws w. env_open s (append_path name y) = Some ws \<and> w \<in> set ws \<and> \<not> dotted w \<longrightarrow>
             y @ slash # w \<in> set ys))"
  proof (intro allI impI)
    fix name ys
    assume "natural s (DirectoryElement name) ys"
    then obtain vs where l: "listing s (length name + 1) name vs ys" by auto
    from listing_descends [OF l, of name, THEN conjunct2]
    show "\<forall>y \<in> set ys. env_identify s (append_path name y) = TypeDirectory \<longrightarrow>
          (\<forall>ws w. env_open s (append_path name y) = Some ws \<and> w \<in> set ws \<and> \<not> dotted w \<longrightarrow>
             y @ slash # w \<in> set ys)"
      by (simp add: append_path_def)
  qed
  show "(\<forall>p ws. env_open s p = Some ws \<longrightarrow> (\<forall>w \<in> set ws. slash \<notin> set w)) \<longrightarrow>
       (\<forall>name ys. natural s (DirectoryElement name) ys \<longrightarrow>
          (\<forall>y \<in> set ys. \<forall>c \<in> set (components y). \<not> dotted c))"
  proof (intro allI impI)
    fix name ys
    assume u: "\<forall>p ws. env_open s p = Some ws \<longrightarrow> (\<forall>w \<in> set ws. slash \<notin> set w)"
      and "natural s (DirectoryElement name) ys"
    then obtain vs where vs: "env_open s name = Some vs"
      and l: "listing s (length name + 1) name vs ys" by auto
    have "\<forall>v \<in> set vs. slash \<notin> set v" using u vs by blast
    from listing_undotted [OF l u this, of name]
    show "\<forall>y \<in> set ys. \<forall>c \<in> set (components y). \<not> dotted c" by simp
  qed
qed

lemmas example_fs = example_env_def append_path_def slash_def dot_def

lemma example_listing_pkg:
  "listing example_env 3 (bytes ''cp/pkg'') [bytes ''X'', bytes ''.hidden''] [bytes ''pkg/X'']"
proof -
  have 0: "listing example_env 3 (bytes ''cp/pkg'') [] []" by (rule listing.empty)
  have 1: "listing example_env 3 (bytes ''cp/pkg'') [bytes ''.hidden''] []"
    using listing.hidden [OF _ 0, of "bytes ''.hidden''"] by (simp add: dot_def)
  show ?thesis
    using listing.plain [OF _ _ 1, of "bytes ''X''"] by (simp add: example_fs)
qed

lemma example_listing_cp:
  "listing example_env 3 (bytes ''cp'') [bytes ''.git'', bytes ''A'', bytes ''pkg'']
     [bytes ''A'', bytes ''pkg'', bytes ''pkg/X'']"
proof -
  have 0: "listing example_env 3 (bytes ''cp'') [] []" by (rule listing.empty)
  have p: "listing example_env 3 (append_path (bytes ''cp'') (bytes ''pkg''))
      [bytes ''X'', bytes ''.hidden''] [bytes ''pkg/X'']"
    using example_listing_pkg by (simp add: append_path_def slash_def)
  have 1: "listing example_env 3 (bytes ''cp'') [bytes ''pkg''] [bytes ''pkg'', bytes ''pkg/X'']"
    using listing.descent [OF _ _ _ p 0] by (simp add: example_fs)
  have 2: "listing example_env 3 (bytes ''cp'') [bytes ''A'', bytes ''pkg'']
      [bytes ''A'', bytes ''pkg'', bytes ''pkg/X'']"
    using listing.plain [OF _ _ 1, of "bytes ''A''"] by (simp add: example_fs)
  show ?thesis
    using listing.hidden [OF _ 2, of "bytes ''.git''"] by (simp add: dot_def)
qed

theorem finder_enumeration_witness:
  "index_sound example_cp \<and> index_sound example_jar \<and>
   natural example_env example_cp [bytes ''A'', bytes ''pkg'', bytes ''pkg/X''] \<and>
   natural example_env example_jar [[0x41], [0x42], [0x41]] \<and>
   (\<exists>mi mi'. MyFinder_iterator example_env [example_cp, example_jar] = Inr mi \<and>
      yields (MyIterator_next example_env) mi
        [bytes ''A'', bytes ''pkg'', bytes ''pkg/X'', [0x41], [0x42], [0x41]] mi') \<and>
   enumerates example_env example_cp [bytes ''A'', bytes ''pkg'', bytes ''pkg/X''] \<and>
   components (bytes ''pkg/X'') = [bytes ''pkg'', bytes ''X'']"
proof -
  have s1: "index_sound example_cp" and s2: "index_sound example_jar"
    by (simp_all add: index_sound_def example_cp_def example_jar_def)
  then have sound: "\<forall>e \<in> set [example_cp, example_jar]. index_sound e" by simp
  note t = finder_enumeration [OF sound, of example_env]
  have o: "env_open example_env (bytes ''cp'') = Some [bytes ''.git'', bytes ''A'', bytes ''pkg'']"
    by (simp add: example_env_def)
  have n1: "natural example_env example_cp [bytes ''A'', bytes ''pkg'', bytes ''pkg/X'']"
    using o example_listing_cp by (simp add: example_cp_def numeral_3_eq_3)
  have n2: "natural example_env example_jar [[0x41], [0x42], [0x41]]"
    using example_init example_names
    by (simp add: example_jar_def example_jar_loaded_def example_env_simps example_index_def)
  have l: "list_all2 (natural example_env) [example_cp, example_jar]
      [[bytes ''A'', bytes ''pkg'', bytes ''pkg/X''], [[0x41], [0x42], [0x41]]]"
    using n1 n2 by simp
  from t [THEN conjunct2, THEN conjunct1, rule_format, OF l]
  have y: "\<exists>mi mi'. MyFinder_iterator example_env [example_cp, example_jar] = Inr mi \<and>
      yields (MyIterator_next example_env) mi
        [bytes ''A'', bytes ''pkg'', bytes ''pkg/X'', [0x41], [0x42], [0x41]] mi'"
    by simp
  from t [THEN conjunct2, THEN conjunct2, THEN conjunct1] n1
  have e: "enumerates example_env example_cp [bytes ''A'', bytes ''pkg'', bytes ''pkg/X'']"
    by simp
  have c: "components (bytes ''pkg/X'') = [bytes ''pkg'', bytes ''X'']"
    by (simp add: slash_def)
  show ?thesis using s1 s2 n1 n2 y e c by blast
qed

end
